theory Spec2Isabelle
  imports Complex_Main "HOL-Library.Char_ord" "HOL-Library.List_Lexorder" "HOL-Library.Multiset"
begin

section \<open>JavaScript values shared by the modules\<close>

text \<open>
  A JavaScript \<open>number\<close> as far as the program observes it: not-a-number, the two
  infinities, or a finite value. Finite values are kept exact (every double is a real);
  the program only floors, compares, adds and multiplies them by integers.
\<close>

datatype jsnum = NaN | PosInf | NegInf | Fin real

text \<open>A thrown \<open>Error\<close>, carrying its message.\<close>

datatype error = Error string

fun Math_floor :: "jsnum \<Rightarrow> jsnum" where
  "Math_floor (Fin x) = Fin (of_int \<lfloor>x\<rfloor>)"
| "Math_floor v = v"

fun div1000 :: "jsnum \<Rightarrow> jsnum" where
  "div1000 (Fin x) = Fin (x / 1000)"
| "div1000 v = v"

section \<open>utils/time.ts: toUnixSeconds\<close>

text \<open>
  \<open>toUnixSeconds(value: string | number)\<close>. The two platform conversions it calls,
  \<open>Number(value)\<close> and \<open>Date.parse(value)\<close>, are parameters of the model; the calls made
  are recorded in order, so that "date parsing is attempted" is an observable of the model.
\<close>

datatype time_value = StrValue string | NumValue jsnum

datatype platform_call = Call_Number string | Call_Date_parse string

definition toUnixSeconds ::
  "(string \<Rightarrow> jsnum) \<Rightarrow> (string \<Rightarrow> jsnum) \<Rightarrow> time_value \<Rightarrow> (error + jsnum) \<times> platform_call list" where
  "toUnixSeconds toNumber Date_parse v =
     (case v of
        NumValue x \<Rightarrow> (Inr (Math_floor x), [])
      | StrValue s \<Rightarrow>
          (let asNumber = toNumber s in
           if asNumber \<noteq> NaN then (Inr (Math_floor asNumber), [Call_Number s])
           else
             (let parsed = Date_parse s in
              if parsed = NaN
              then (Inl (Error (''Unable to parse time value: '' @ s)),
                    [Call_Number s, Call_Date_parse s])
              else (Inr (Math_floor (div1000 parsed)),
                    [Call_Number s, Call_Date_parse s]))))"

text \<open>
  A small platform used to run the model on concrete strings: \<open>Number("2017")\<close> is 2017,
  \<open>Number("")\<close> is 0, \<open>Date.parse("2017-01-01")\<close> is 1483228800000 and every other string
  converts to NaN.
\<close>

definition sample_Number :: "string \<Rightarrow> jsnum" where
  "sample_Number s = (if s = ''2017'' then Fin 2017 else if s = [] then Fin 0 else NaN)"

definition sample_Date_parse :: "string \<Rightarrow> jsnum" where
  "sample_Date_parse s = (if s = ''2017-01-01'' then Fin 1483228800000 else NaN)"

section \<open>utils/time.ts: Date arithmetic and splitIntoMonthlyRanges\<close>

text \<open>
  A \<open>Date\<close> is its time value: milliseconds since the epoch, or NaN for an invalid date
  (\<open>None\<close>). The functions below are the abstract operations of the language standard that
  \<open>new Date(ms)\<close>, \<open>getTime()\<close>, \<open>getUTCMonth()\<close> and \<open>setUTCMonth(m)\<close> are defined by
  (UTC, proleptic Gregorian calendar). Epoch seconds are integers, as the callers floor them.
\<close>

definition msPerDay :: int where "msPerDay = 86400000"

definition Day :: "int \<Rightarrow> int" where "Day t = t div msPerDay"

definition TimeWithinDay :: "int \<Rightarrow> int" where "TimeWithinDay t = t mod msPerDay"

definition DayFromYear :: "int \<Rightarrow> int" where
  "DayFromYear y = 365 * (y - 1970) + (y - 1969) div 4 - (y - 1901) div 100 + (y - 1601) div 400"

definition isLeapYear :: "int \<Rightarrow> bool" where
  "isLeapYear y \<longleftrightarrow> (y mod 4 = 0 \<and> y mod 100 \<noteq> 0) \<or> y mod 400 = 0"


text \<open>
  The standard defines the year of a day number as the largest \<open>y\<close> with
  \<open>DayFromYear y \<le> d\<close>. It is computed here from the estimate \<open>1970 + 400 d div 146097\<close>,
  which is off by at most one (lemma \<open>YearFromDay_correct\<close>).
\<close>

definition YearFromDay :: "int \<Rightarrow> int" where
  "YearFromDay d =
     (let c = 1970 + (400 * d) div 146097 in
      if DayFromYear (c + 1) \<le> d then c + 1
      else if DayFromYear c \<le> d then c
      else c - 1)"

definition YearFromTime :: "int \<Rightarrow> int" where
  "YearFromTime t = YearFromDay (Day t)"

definition DayWithinYear :: "int \<Rightarrow> int" where
  "DayWithinYear t = Day t - DayFromYear (YearFromTime t)"

definition InLeapYear :: "int \<Rightarrow> int" where
  "InLeapYear t = (if isLeapYear (YearFromTime t) then 1 else 0)"

text \<open>Day within the year of the first day of month \<open>m\<close> (0 is January).\<close>

definition monthFirstDay :: "int \<Rightarrow> int \<Rightarrow> int" where
  "monthFirstDay leap m =
     (if m = 0 then 0 else if m = 1 then 31 else if m = 2 then 59 + leap
      else if m = 3 then 90 + leap else if m = 4 then 120 + leap
      else if m = 5 then 151 + leap else if m = 6 then 181 + leap
      else if m = 7 then 212 + leap else if m = 8 then 243 + leap
      else if m = 9 then 273 + leap else if m = 10 then 304 + leap
      else 334 + leap)"

definition MonthFromTime :: "int \<Rightarrow> int" where
  "MonthFromTime t =
     (let d = DayWithinYear t; leap = InLeapYear t in
      if d < 31 then 0 else if d < 59 + leap then 1 else if d < 90 + leap then 2
      else if d < 120 + leap then 3 else if d < 151 + leap then 4
      else if d < 181 + leap then 5 else if d < 212 + leap then 6
      else if d < 243 + leap then 7 else if d < 273 + leap then 8
      else if d < 304 + leap then 9 else if d < 334 + leap then 10
      else 11)"

definition DateFromTime :: "int \<Rightarrow> int" where
  "DateFromTime t = DayWithinYear t - monthFirstDay (InLeapYear t) (MonthFromTime t) + 1"

text \<open>
  \<open>MakeDay\<close> accepts any month number: months beyond December carry into the year, and a
  day of the month that the target month does not have runs over into the next month
  (31 January plus one month is 2 or 3 March).
\<close>

definition MakeDay :: "int \<Rightarrow> int \<Rightarrow> int \<Rightarrow> int" where
  "MakeDay year month date =
     (let ym = year + month div 12; mn = month mod 12 in
      DayFromYear ym + monthFirstDay (if isLeapYear ym then 1 else 0) mn + date - 1)"

definition MakeDate :: "int \<Rightarrow> int \<Rightarrow> int" where
  "MakeDate day time = day * msPerDay + time"

text \<open>A time value beyond 8.64e15 ms on either side of the epoch is not a date.\<close>

definition TimeClip :: "int \<Rightarrow> int option" where
  "TimeClip t = (if \<bar>t\<bar> \<le> 8640000000000000 then Some t else None)"

definition newDate :: "int \<Rightarrow> int option" where
  "newDate ms = TimeClip ms"

definition getUTCMonth :: "int \<Rightarrow> int" where
  "getUTCMonth t = MonthFromTime t"

definition setUTCMonth :: "int \<Rightarrow> int \<Rightarrow> int option" where
  "setUTCMonth t month =
     TimeClip (MakeDate (MakeDay (YearFromTime t) month (DateFromTime t)) (TimeWithinDay t))"

text \<open>\<open>addMonths(date, months)\<close>, on a valid date.\<close>

definition addMonths :: "int \<Rightarrow> int \<Rightarrow> int option" where
  "addMonths date months = (let targetMonth = getUTCMonth date + months in setUTCMonth date targetMonth)"

text \<open>
  \<open>EpochRange\<close>. Both fields are numbers in the source; \<open>start\<close> is always an integer
  there, while \<open>end\<close> is NaN (\<open>None\<close>) when it was read off an invalid date.
\<close>

record EpochRange =
  range_start :: int
  range_end :: "int option"

text \<open>
  The \<open>while (cursor < endDate)\<close> loop of \<open>splitIntoMonthlyRanges\<close>, entered with two valid
  dates. A comparison with an invalid date is false: when \<open>addMonths\<close> leaves the range of
  dates, \<open>boundedEnd\<close> is that invalid date, \<open>chunkEnd\<close> is NaN, the \<open>break\<close> test fails,
  the range is pushed and the loop condition ends the loop.
\<close>

function monthly_loop :: "int \<Rightarrow> int \<Rightarrow> int \<Rightarrow> EpochRange list \<Rightarrow> EpochRange list" where
  "monthly_loop cursor endDate monthsPerBatch ranges =
     (if cursor < endDate then
        (let chunkStart = cursor div 1000;
             chunkEndDate = addMonths cursor monthsPerBatch;
             boundedEnd = (case chunkEndDate of
                             None \<Rightarrow> None
                           | Some ce \<Rightarrow> Some (if ce > endDate then endDate else ce))
         in case boundedEnd of
              None \<Rightarrow> ranges @ [\<lparr>range_start = chunkStart, range_end = None\<rparr>]
            | Some be \<Rightarrow>
                (let chunkEnd = be div 1000 in
                 if chunkEnd \<le> chunkStart then ranges
                 else monthly_loop be endDate monthsPerBatch
                        (ranges @ [\<lparr>range_start = chunkStart, range_end = Some chunkEnd\<rparr>])))
      else ranges)"
  by pat_completeness auto
termination
proof (relation "measure (\<lambda>(cursor, endDate, monthsPerBatch, ranges). nat (endDate - cursor))")
  show "wf (measure (\<lambda>(cursor, endDate, monthsPerBatch, ranges). nat (endDate - cursor)))"
    by simp
next
  fix cursor endDate monthsPerBatch :: int and ranges :: "EpochRange list"
    and x xa xb xc xd
  assume lt: "cursor < endDate"
    and x: "x = cursor div 1000"
    and xd: "xd = xc div 1000"
    and gt: "\<not> xd \<le> x"
  have "cursor < xc"
  proof (rule ccontr)
    assume "\<not> cursor < xc"
    then have "xc div 1000 \<le> cursor div 1000" by (simp add: zdiv_mono1)
    with gt x xd show False by simp
  qed
  then show "((xc, endDate, monthsPerBatch,
               ranges @ [\<lparr>range_start = x, range_end = Some xd\<rparr>]),
              cursor, endDate, monthsPerBatch, ranges)
             \<in> measure (\<lambda>(cursor, endDate, monthsPerBatch, ranges). nat (endDate - cursor))"
    using lt by simp
qed

declare monthly_loop.simps [simp del]

text \<open>
  \<open>splitIntoMonthlyRanges\<close>: the two guards, the loop, and the closing step that appends
  \<open>[previousEnd, endEpoch)\<close> when the loop produced nothing or stopped short.
\<close>

definition splitIntoMonthlyRanges :: "int \<Rightarrow> int \<Rightarrow> int \<Rightarrow> error + EpochRange list" where
  "splitIntoMonthlyRanges startEpoch endEpoch monthsPerBatch =
     (if monthsPerBatch \<le> 0 then Inl (Error ''monthsPerBatch must be greater than 0'')
      else if endEpoch \<le> startEpoch then Inr []
      else
        (let startDate = newDate (startEpoch * 1000);
             endDate = newDate (endEpoch * 1000);
             ranges = (case (startDate, endDate) of
                         (Some cursor, Some e) \<Rightarrow> monthly_loop cursor e monthsPerBatch []
                       | _ \<Rightarrow> [])
         in Inr (case (if ranges = [] then None else Some (last ranges)) of
                   None \<Rightarrow>
                     (if endEpoch > startEpoch
                      then ranges @ [\<lparr>range_start = startEpoch, range_end = Some endEpoch\<rparr>]
                      else ranges)
                 | Some lastRange \<Rightarrow>
                     (case range_end lastRange of
                        None \<Rightarrow> ranges
                      | Some previousEnd \<Rightarrow>
                          (if previousEnd < endEpoch \<and> endEpoch > previousEnd
                           then ranges @ [\<lparr>range_start = previousEnd, range_end = Some endEpoch\<rparr>]
                           else ranges)))))"







section \<open>utils/hash.ts: canonicalize and checksumFrom\<close>

text \<open>
  A JSON-like value. Numbers are the integers (the payloads of this program carry counts
  and version numbers), an object is the list of its entries in the order of
  \<open>Object.entries\<close>, with no key twice (\<open>wf_json\<close>). A string is a list of code units
  below 256.
\<close>

datatype json =
    JNull
  | JBool bool
  | JNum int
  | JStr string
  | JArr "json list"
  | JObj "(string \<times> json) list"

fun wf_json :: "json \<Rightarrow> bool" where
  "wf_json (JArr xs) = (\<forall>x\<in>set xs. wf_json x)"
| "wf_json (JObj kvs) = (distinct (map fst kvs) \<and> (\<forall>kv\<in>set kvs. wf_json (snd kv)))"
| "wf_json v = True"

text \<open>\<open>Array.prototype.join\<close> on strings.\<close>

fun join :: "string \<Rightarrow> string list \<Rightarrow> string" where
  "join sep [] = []"
| "join sep [x] = x"
| "join sep (x # y # ys) = x @ sep @ join sep (y # ys)"

text \<open>\<open>JSON.stringify\<close> on a number that is an integer: its decimal digits.\<close>

definition digit_char :: "nat \<Rightarrow> char" where
  "digit_char n = ''0123456789abcdef'' ! n"

fun string_of_nat :: "nat \<Rightarrow> string" where
  "string_of_nat n = (if n < 10 then [digit_char n] else string_of_nat (n div 10) @ [digit_char (n mod 10)])"

declare string_of_nat.simps [simp del]

definition string_of_int :: "int \<Rightarrow> string" where
  "string_of_int i = (if i < 0 then CHR ''-'' # string_of_nat (nat (- i)) else string_of_nat (nat i))"

text \<open>
  \<open>JSON.stringify\<close> on a string: the quotation mark and the reverse solidus are escaped
  with a reverse solidus, the control characters are written as \<open>\b \t \n \f \r\<close> or as
  \<open>\u00XX\<close>, every other code unit stands for itself.
\<close>

definition escape_char :: "char \<Rightarrow> string" where
  "escape_char c =
     (if c = CHR 0x22 then [CHR 0x5C, CHR 0x22]
      else if c = CHR 0x5C then [CHR 0x5C, CHR 0x5C]
      else if c = CHR 0x08 then [CHR 0x5C, CHR ''b'']
      else if c = CHR 0x09 then [CHR 0x5C, CHR ''t'']
      else if c = CHR 0x0A then [CHR 0x5C, CHR ''n'']
      else if c = CHR 0x0C then [CHR 0x5C, CHR ''f'']
      else if c = CHR 0x0D then [CHR 0x5C, CHR ''r'']
      else if (of_char c :: nat) < 32
        then [CHR 0x5C, CHR ''u'', CHR ''0'', CHR ''0'',
              digit_char (of_char c div 16), digit_char (of_char c mod 16)]
      else [c])"

definition quote :: "string \<Rightarrow> string" where
  "quote s = CHR 0x22 # concat (map escape_char s) @ [CHR 0x22]"

text \<open>
  The sort of the entries by key. \<open>a.localeCompare(b)\<close> belongs to the platform and is the
  parameter \<open>lc\<close>; the sort is stable: of two entries that compare equal the earlier stays
  first.
\<close>

fun insert_entry :: "(string \<Rightarrow> string \<Rightarrow> int) \<Rightarrow> string \<times> 'a \<Rightarrow> (string \<times> 'a) list \<Rightarrow> (string \<times> 'a) list" where
  "insert_entry lc x [] = [x]"
| "insert_entry lc x (y # ys) =
     (if lc (fst x) (fst y) \<le> 0 then x # y # ys else y # insert_entry lc x ys)"

definition sort_entries :: "(string \<Rightarrow> string \<Rightarrow> int) \<Rightarrow> (string \<times> 'a) list \<Rightarrow> (string \<times> 'a) list" where
  "sort_entries lc kvs = foldr (insert_entry lc) kvs []"

function canonicalize :: "(string \<Rightarrow> string \<Rightarrow> int) \<Rightarrow> json \<Rightarrow> string" where
  "canonicalize lc JNull = ''null''"
| "canonicalize lc (JBool b) = (if b then ''true'' else ''false'')"
| "canonicalize lc (JNum n) = string_of_int n"
| "canonicalize lc (JStr s) = quote s"
| "canonicalize lc (JArr xs) = ''['' @ join '','' (map (\<lambda>item. canonicalize lc item) xs) @ '']''"
| "canonicalize lc (JObj kvs) =
     (let entries = sort_entries lc kvs;
          serialized = join '','' (map (\<lambda>kv. quote (fst kv) @ '':'' @ canonicalize lc (snd kv)) entries)
      in ''{'' @ serialized @ ''}'')"
  by pat_completeness auto
termination
proof (relation "measure (\<lambda>(lc, v). size v)")
  show "wf (measure (\<lambda>(lc, v). size v))" by simp
next
  fix lc :: "string \<Rightarrow> string \<Rightarrow> int" and xs :: "json list" and item
  assume "item \<in> set xs"
  then have "size item < size (JArr xs)"
    by (induction xs) auto
  then show "((lc, item), lc, JArr xs) \<in> measure (\<lambda>(lc, v). size v)" by simp
next
  fix lc :: "string \<Rightarrow> string \<Rightarrow> int" and kvs :: "(string \<times> json) list" and x kv
  assume x: "x = sort_entries lc kvs" and kv: "kv \<in> set x"
  have ins: "set (insert_entry lc a ys) = insert a (set ys)" for a :: "string \<times> json" and ys
    by (induction ys) auto
  have "set (foldr (insert_entry lc) zs []) = set zs" for zs :: "(string \<times> json) list"
    by (induction zs) (simp_all add: ins)
  then have "kv \<in> set kvs" using x kv by (simp add: sort_entries_def)
  then have "size (snd kv) < size (JObj kvs)"
    by (induction kvs) auto
  then show "((lc, snd kv), lc, JObj kvs) \<in> measure (\<lambda>(lc, v). size v)" by simp
qed

text \<open>
  \<open>checksumFrom\<close>. The hash of the node library, hex digest included, is the parameter
  \<open>digest\<close>.
\<close>

definition checksumFrom :: "(string \<Rightarrow> string) \<Rightarrow> (string \<Rightarrow> string \<Rightarrow> int) \<Rightarrow> json \<Rightarrow> string" where
  "checksumFrom digest lc v = digest (canonicalize lc v)"

text \<open>
  A comparison of keys that agrees with \<open>localeCompare\<close> on lower-case ASCII letters, and
  the identity as a collision-free stand-in for the hash, to run the model on examples.
\<close>

definition sample_compare :: "string \<Rightarrow> string \<Rightarrow> int" where
  "sample_compare a b = (if a < b then - 1 else if a = b then 0 else 1)"

text \<open>
  Equality of JSON-like values up to the order of the entries of objects, at any depth.
\<close>

inductive same_value :: "json \<Rightarrow> json \<Rightarrow> bool" where
  sv_null: "same_value JNull JNull"
| sv_bool: "same_value (JBool b) (JBool b)"
| sv_num: "same_value (JNum n) (JNum n)"
| sv_str: "same_value (JStr s) (JStr s)"
| sv_arr: "list_all2 same_value xs ys \<Longrightarrow> same_value (JArr xs) (JArr ys)"
| sv_obj: "list_all2 (\<lambda>kv kv'. fst kv = fst kv' \<and> same_value (snd kv) (snd kv')) kvs ws
           \<Longrightarrow> mset ws = mset kvs' \<Longrightarrow> same_value (JObj kvs) (JObj kvs')"

text \<open>The comparison is a linear order on keys.\<close>

definition linear_compare :: "(string \<Rightarrow> string \<Rightarrow> int) \<Rightarrow> bool" where
  "linear_compare lc \<longleftrightarrow>
     (\<forall>a b. lc a b \<le> 0 \<or> lc b a \<le> 0)
     \<and> (\<forall>a b. lc a b \<le> 0 \<and> lc b a \<le> 0 \<longrightarrow> a = b)
     \<and> (\<forall>a b c. lc a b \<le> 0 \<and> lc b c \<le> 0 \<longrightarrow> lc a c \<le> 0)"

text \<open>The order in which the sort leaves two entries.\<close>

definition key_le :: "(string \<Rightarrow> string \<Rightarrow> int) \<Rightarrow> string \<times> 'a \<Rightarrow> string \<times> 'a \<Rightarrow> bool" where
  "key_le lc a b \<longleftrightarrow> lc (fst a) (fst b) \<le> 0"

text \<open>
  The reader's side of the canonical form, used to show that it determines the value:
  the value of a digit, the number that a string of decimal digits denotes, and the
  string that the text after an opening quotation mark denotes, together with the text
  after the closing one.
\<close>

definition is_digit :: "char \<Rightarrow> bool" where
  "is_digit c \<longleftrightarrow> c \<in> set ''0123456789''"

definition digit_val :: "char \<Rightarrow> nat" where
  "digit_val c =
     (if c = CHR ''a'' then 10 else if c = CHR ''b'' then 11 else if c = CHR ''c'' then 12
      else if c = CHR ''d'' then 13 else if c = CHR ''e'' then 14 else if c = CHR ''f'' then 15
      else of_char c - 48)"

definition nat_of_digits :: "string \<Rightarrow> nat" where
  "nat_of_digits s = foldl (\<lambda>a c. 10 * a + digit_val c) 0 s"

fun unquote_body :: "string \<Rightarrow> (string \<times> string) option" where
  "unquote_body [] = None"
| "unquote_body (c # cs) =
     (if c = CHR 0x22 then Some ([], cs)
      else if c = CHR 0x5C then
        (case cs of
           [] \<Rightarrow> None
         | x # cs1 \<Rightarrow>
             (if x = CHR ''u'' then
                (case cs1 of
                   a # b # h1 # h2 # cs2 \<Rightarrow>
                     map_option (\<lambda>(s, r). (char_of (16 * digit_val h1 + digit_val h2) # s, r))
                       (unquote_body cs2)
                 | _ \<Rightarrow> None)
              else
                map_option
                  (\<lambda>(s, r). ((if x = CHR ''b'' then CHR 0x08 else if x = CHR ''t'' then CHR 0x09
                                else if x = CHR ''n'' then CHR 0x0A else if x = CHR ''f'' then CHR 0x0C
                                else if x = CHR ''r'' then CHR 0x0D else x) # s, r))
                  (unquote_body cs1)))
      else map_option (\<lambda>(s, r). (c # s, r)) (unquote_body cs))"

text \<open>
  The kind of a value, and the kind that the first character of a canonical form
  announces; a character that starts no value announces none (6).
\<close>

fun kind :: "json \<Rightarrow> nat" where
  "kind JNull = 0"
| "kind (JBool b) = 1"
| "kind (JNum n) = 2"
| "kind (JStr s) = 3"
| "kind (JArr xs) = 4"
| "kind (JObj kvs) = 5"

definition kind_of_char :: "char \<Rightarrow> nat" where
  "kind_of_char c =
     (if c = CHR ''n'' then 0
      else if c = CHR ''t'' \<or> c = CHR ''f'' then 1
      else if is_digit c \<or> c = CHR ''-'' then 2
      else if c = CHR 0x22 then 3
      else if c = CHR ''['' then 4
      else if c = CHR ''{'' then 5
      else 6)"

text \<open>What may follow a value inside a canonical form: nothing, or a character that starts no value.\<close>

definition delimited :: "string \<Rightarrow> bool" where
  "delimited r \<longleftrightarrow> (case r of [] \<Rightarrow> True | c # cs \<Rightarrow> kind_of_char c = 6)"

section \<open>cache/cache.ts: the cache client\<close>

text \<open>
  \<open>CacheWriteInput\<close>, and the store behind the \<open>CacheClient\<close> interface: one entry per
  namespace and checksum, a write replaces the entry of its key, a read of a key never
  written returns \<open>null\<close> (\<open>None\<close>). The time stamp that a write adds is not kept: nothing in
  the program reads it.
\<close>

record CacheWriteInput =
  entry_checksum :: string
  entry_body :: string
  entry_metadata :: "(string \<times> json) list"

type_synonym cache_store = "string \<times> string \<Rightarrow> CacheWriteInput option"

definition cache_read :: "cache_store \<Rightarrow> string \<Rightarrow> string \<Rightarrow> CacheWriteInput option" where
  "cache_read store namespace checksum = store (namespace, checksum)"

definition cache_write :: "cache_store \<Rightarrow> string \<Rightarrow> CacheWriteInput \<Rightarrow> cache_store" where
  "cache_write store namespace entry = store((namespace, entry_checksum entry) \<mapsto> entry)"

section \<open>clients/pullpush.ts: the paginated fetcher\<close>

record RedditComment =
  comment_id :: string
  body :: string
  createdUtc :: int
  permalink :: string
  subreddit :: string

record RawRedditComment =
  raw_id :: string
  raw_body :: string
  created_utc :: real
  raw_permalink :: string
  raw_subreddit :: string

record PullpushResponse =
  response_data :: "RawRedditComment list"
  response_error :: "string option"

text \<open>
  What \<open>fetch(url)\<close> settles with: a response, of which the client reads the status, the
  \<open>retry-after\<close> header (\<open>headers.get\<close> returns \<open>null\<close> for an absent header) and the body, or a
  rejection.
\<close>

record http_response =
  http_status :: int
  retry_after :: "string option"
  response_text :: string

datatype fetch_result = Response http_response | Rejected error

definition response_ok :: "http_response \<Rightarrow> bool" where
  "response_ok r \<longleftrightarrow> 200 \<le> http_status r \<and> http_status r \<le> 299"

text \<open>
  The options of the client after the constructor has filled in the defaults (the fields
  carry the prefix \<open>opt\<close>).
\<close>

record PullpushClientOptions =
  opt_product :: string
  opt_monthsPerBatch :: int
  opt_startEpoch :: int
  opt_endEpoch :: int
  opt_subreddit :: "string option"
  opt_namespace :: string
  opt_pageSize :: int
  opt_baseUrl :: string
  opt_maxRetries :: int
  opt_retryBackoffMs :: int

text \<open>
  The surroundings of the client. \<open>server k\<close> is what the \<open>k\<close>-th call of \<open>fetch\<close> settles
  with, whatever its URL: any behaviour of the remote service is one such function.
  \<open>Number_of_string\<close> is \<open>Number(...)\<close> on strings, \<open>parseResponse\<close> is \<open>JSON.parse\<close> of a response
  body, \<open>urlEncode\<close> the encoding of a query value, \<open>hash\<close> and \<open>compare\<close> the digest and the
  key comparison of \<open>checksumFrom\<close>.
\<close>

record environment =
  server :: "nat \<Rightarrow> fetch_result"
  Number_of_string :: "string \<Rightarrow> jsnum"
  parseResponse :: "string \<Rightarrow> error + PullpushResponse"
  urlEncode :: "string \<Rightarrow> string"
  hash :: "string \<Rightarrow> string"
  compare :: "string \<Rightarrow> string \<Rightarrow> int"

text \<open>
  The state that the client changes: the cache, the number of calls of \<open>fetch\<close> made, the
  waits (\<open>sleep(ms)\<close>) in order, and the page requests of \<open>fetchRange\<close> as pairs of \<open>after\<close>
  and \<open>before\<close>, in order. The optional spacing between live requests depends on the
  clock only and is left out.
\<close>

record world =
  cache :: cache_store
  fetches :: nat
  sleeps :: "real list"
  page_requests :: "(int \<times> int) list"

definition MIN_CURSOR_INCREMENT :: int where
  "MIN_CURSOR_INCREMENT = 1"

text \<open>\<open>Number(response.headers.get('retry-after'))\<close>: \<open>Number(null)\<close> is 0.\<close>

definition Number_of_header :: "(string \<Rightarrow> jsnum) \<Rightarrow> string option \<Rightarrow> jsnum" where
  "Number_of_header conv h = (case h of None \<Rightarrow> Fin 0 | Some s \<Rightarrow> conv s)"

fun Number_isFinite :: "jsnum \<Rightarrow> bool" where
  "Number_isFinite (Fin x) = True"
| "Number_isFinite v = False"

text \<open>The wait after a 429 response at the given attempt.\<close>

definition rate_limit_wait :: "environment \<Rightarrow> PullpushClientOptions \<Rightarrow> http_response \<Rightarrow> int \<Rightarrow> real" where
  "rate_limit_wait env opts r attempt =
     (let fromHeader = Number_of_header (Number_of_string env) (retry_after r) in
      case fromHeader of
        Fin x \<Rightarrow> x * 1000
      | _ \<Rightarrow> of_int (opt_retryBackoffMs opts * (attempt + 1)))"

text \<open>\<open>fetchLive\<close>: the loop \<open>for (attempt = 0; attempt < maxRetries; attempt += 1)\<close>.\<close>

function fetchLive_loop ::
  "environment \<Rightarrow> PullpushClientOptions \<Rightarrow> string \<Rightarrow> string \<Rightarrow> int \<Rightarrow> world
     \<Rightarrow> (error + PullpushResponse) \<times> world" where
  "fetchLive_loop env opts url checksum attempt w =
     (if attempt < opt_maxRetries opts then
        (case server env (fetches w) of
           Rejected e \<Rightarrow> (Inl e, w\<lparr>fetches := fetches w + 1\<rparr>)
         | Response response \<Rightarrow>
             (let w1 = w\<lparr>fetches := fetches w + 1\<rparr> in
              if http_status response = 429 then
                (let waitMs = rate_limit_wait env opts response attempt in
                 fetchLive_loop env opts url checksum (attempt + 1)
                   (w1\<lparr>sleeps := sleeps w1 @ [waitMs]\<rparr>))
              else if \<not> response_ok response then
                (if attempt < opt_maxRetries opts - 1 then
                   (let waitMs = of_int (opt_retryBackoffMs opts * (attempt + 1)) in
                    fetchLive_loop env opts url checksum (attempt + 1)
                      (w1\<lparr>sleeps := sleeps w1 @ [waitMs]\<rparr>))
                 else (Inl (Error (''Pullpush API request failed with status ''
                                     @ string_of_int (http_status response))), w1))
              else
                (let text = response_text response;
                     w2 = w1\<lparr>cache := cache_write (cache w1) (opt_namespace opts)
                             \<lparr>entry_checksum = checksum, entry_body = text,
                              entry_metadata = [(''url'', JStr url),
                                                (''status'', JNum (http_status response))]\<rparr>\<rparr>
                 in (parseResponse env text, w2))))
      else (Inl (Error ''Exceeded retry budget for pullpush API request.''), w))"
  by pat_completeness auto
termination
  by (relation "measure (\<lambda>(env, opts, url, checksum, attempt, w). nat (opt_maxRetries opts - attempt))")
     auto

declare fetchLive_loop.simps [simp del]

definition fetchLive ::
  "environment \<Rightarrow> PullpushClientOptions \<Rightarrow> string \<Rightarrow> string \<Rightarrow> world
     \<Rightarrow> (error + PullpushResponse) \<times> world" where
  "fetchLive env opts url checksum w = fetchLive_loop env opts url checksum 0 w"

text \<open>The URL of a page request, and the page itself: from the cache, or live.\<close>

definition page_url :: "environment \<Rightarrow> PullpushClientOptions \<Rightarrow> int \<Rightarrow> int \<Rightarrow> string" where
  "page_url env opts after beforeTs =
     opt_baseUrl opts @ ''?'' @
     join ''&''
       ([''q='' @ urlEncode env (opt_product opts),
         ''size='' @ string_of_int (opt_pageSize opts),
         ''sort_type=created_utc'',
         ''sort=asc'',
         ''after='' @ string_of_int after,
         ''before='' @ string_of_int beforeTs]
        @ (case opt_subreddit opts of
             None \<Rightarrow> []
           | Some s \<Rightarrow> [''subreddit='' @ urlEncode env s]))"

definition load_page ::
  "environment \<Rightarrow> PullpushClientOptions \<Rightarrow> int \<Rightarrow> int \<Rightarrow> world
     \<Rightarrow> (error + PullpushResponse) \<times> world" where
  "load_page env opts after beforeTs w =
     (let url = page_url env opts after beforeTs;
          checksum = checksumFrom (hash env) (compare env)
                       (JObj [(''url'', JStr url), (''method'', JStr ''GET'')]);
          w0 = w\<lparr>page_requests := page_requests w @ [(after, beforeTs)]\<rparr>;
          cached = cache_read (cache w0) (opt_namespace opts) checksum
      in case cached of
           Some entry \<Rightarrow> (parseResponse env (entry_body entry), w0)
         | None \<Rightarrow> fetchLive env opts url checksum w0)"

definition map_comment :: "RawRedditComment \<Rightarrow> RedditComment" where
  "map_comment c =
     \<lparr>comment_id = raw_id c, body = raw_body c, createdUtc = \<lfloor>created_utc c\<rfloor>,
      permalink = raw_permalink c, subreddit = raw_subreddit c\<rparr>"

text \<open>
  The cursor after a page that returned items, the last of which was created at
  \<open>lastTimestamp\<close>.
\<close>

definition next_cursor :: "int \<Rightarrow> int \<Rightarrow> int" where
  "next_cursor after lastTimestamp =
     (if lastTimestamp \<le> after then after + MIN_CURSOR_INCREMENT else lastTimestamp)"

text \<open>
  \<open>fetchRange\<close>: the loop \<open>while (cursor < range.end)\<close>, with the results so far. The
  cursor is an integer, so \<open>Math.floor\<close> leaves it as it is; a range whose end is NaN is
  not entered.
\<close>

function fetchRange_loop ::
  "environment \<Rightarrow> PullpushClientOptions \<Rightarrow> int \<Rightarrow> int \<Rightarrow> RedditComment list \<Rightarrow> world
     \<Rightarrow> (error + RedditComment list) \<times> world" where
  "fetchRange_loop env opts rangeEnd cursor results w =
     (if cursor < rangeEnd then
        (let after = cursor; beforeTs = rangeEnd in
         case load_page env opts after beforeTs w of
           (Inl e, w1) \<Rightarrow> (Inl e, w1)
         | (Inr payload, w1) \<Rightarrow>
             (case response_error payload of
                Some message \<Rightarrow> (Inl (Error (''Pullpush API returned error: '' @ message)), w1)
              | None \<Rightarrow>
                  (let mapped = map map_comment (response_data payload) in
                   if mapped = [] then (Inr results, w1)
                   else
                     (let lastTimestamp = createdUtc (last mapped) in
                      fetchRange_loop env opts rangeEnd (next_cursor after lastTimestamp)
                        (results @ mapped) w1))))
      else (Inr results, w))"
  by pat_completeness auto
termination
  by (relation "measure (\<lambda>(env, opts, rangeEnd, cursor, results, w). nat (rangeEnd - cursor))")
     (auto simp: next_cursor_def MIN_CURSOR_INCREMENT_def)

declare fetchRange_loop.simps [simp del]

definition fetchRange ::
  "environment \<Rightarrow> PullpushClientOptions \<Rightarrow> EpochRange \<Rightarrow> world
     \<Rightarrow> (error + RedditComment list) \<times> world" where
  "fetchRange env opts rng w =
     (case range_end rng of
        None \<Rightarrow> (Inr [], w)
      | Some rangeEnd \<Rightarrow> fetchRange_loop env opts rangeEnd (range_start rng) [] w)"

text \<open>
  \<open>Map.prototype.set\<close> on a map kept as the list of its entries in insertion order: the
  value of a key already present is replaced in place, a new key goes to the end.
\<close>

fun Map_set :: "'k \<Rightarrow> 'v \<Rightarrow> ('k \<times> 'v) list \<Rightarrow> ('k \<times> 'v) list" where
  "Map_set k v [] = [(k, v)]"
| "Map_set k v (e # es) = (if fst e = k then (k, v) # es else e # Map_set k v es)"

definition dedup_chunk :: "RedditComment list \<Rightarrow> (string \<times> RedditComment) list \<Rightarrow> (string \<times> RedditComment) list" where
  "dedup_chunk chunk dedup = fold (\<lambda>comment m. Map_set (comment_id comment) comment m) chunk dedup"

text \<open>\<open>fetchAll\<close>: the loop over the ranges, then the sort of the values by \<open>createdUtc\<close>.\<close>

fun fetchAll_loop ::
  "environment \<Rightarrow> PullpushClientOptions \<Rightarrow> EpochRange list \<Rightarrow> (string \<times> RedditComment) list \<Rightarrow> world
     \<Rightarrow> (error + (string \<times> RedditComment) list) \<times> world" where
  "fetchAll_loop env opts [] dedup w = (Inr dedup, w)"
| "fetchAll_loop env opts (rng # ranges) dedup w =
     (case fetchRange env opts rng w of
        (Inl e, w1) \<Rightarrow> (Inl e, w1)
      | (Inr chunk, w1) \<Rightarrow> fetchAll_loop env opts ranges (dedup_chunk chunk dedup) w1)"

definition fetchAll ::
  "environment \<Rightarrow> PullpushClientOptions \<Rightarrow> world \<Rightarrow> (error + RedditComment list) \<times> world" where
  "fetchAll env opts w =
     (case splitIntoMonthlyRanges (opt_startEpoch opts) (opt_endEpoch opts) (opt_monthsPerBatch opts) of
        Inl e \<Rightarrow> (Inl e, w)
      | Inr ranges \<Rightarrow>
          (case fetchAll_loop env opts ranges [] w of
             (Inl e, w1) \<Rightarrow> (Inl e, w1)
           | (Inr dedup, w1) \<Rightarrow> (Inr (sort_key createdUtc (map snd dedup)), w1)))"

text \<open>The records that the pages of a run returned, in the order of their arrival.\<close>

fun fetched_records ::
  "environment \<Rightarrow> PullpushClientOptions \<Rightarrow> EpochRange list \<Rightarrow> world \<Rightarrow> RedditComment list" where
  "fetched_records env opts [] w = []"
| "fetched_records env opts (rng # ranges) w =
     (case fetchRange env opts rng w of
        (Inl e, w1) \<Rightarrow> []
      | (Inr chunk, w1) \<Rightarrow> chunk @ fetched_records env opts ranges w1)"


text \<open>Every entry of the deduplication map is stored under the id of its comment.\<close>

definition keyed :: "(string \<times> RedditComment) list \<Rightarrow> bool" where
  "keyed m \<longleftrightarrow> (\<forall>e\<in>set m. comment_id (snd e) = fst e)"

text \<open>
  A service to run the client against. Its first answer is 429 without a \<open>retry-after\<close>
  header, its second 429 with \<open>retry-after: 2\<close>; then come a page with the comments \<open>a\<close>
  (created at 3) and \<open>b\<close> (created at 5.7), a page with \<open>b\<close> again and \<open>c\<close> (created at 4),
  and empty pages from then on.
\<close>

definition sample_server :: "nat \<Rightarrow> fetch_result" where
  "sample_server k =
     (if k = 0 then Response \<lparr>http_status = 429, retry_after = None, response_text = []\<rparr>
      else if k = 1 then Response \<lparr>http_status = 429, retry_after = Some ''2'', response_text = []\<rparr>
      else if k = 2 then Response \<lparr>http_status = 200, retry_after = None, response_text = ''A''\<rparr>
      else if k = 3 then Response \<lparr>http_status = 200, retry_after = None, response_text = ''B''\<rparr>
      else Response \<lparr>http_status = 200, retry_after = None, response_text = ''E''\<rparr>)"

definition sample_comment :: "string \<Rightarrow> real \<Rightarrow> RawRedditComment" where
  "sample_comment i t =
     \<lparr>raw_id = i, raw_body = ''text'', created_utc = t, raw_permalink = ''/r/x/'' @ i,
      raw_subreddit = ''x''\<rparr>"

definition sample_parse :: "string \<Rightarrow> error + PullpushResponse" where
  "sample_parse text =
     (if text = ''A''
        then Inr \<lparr>response_data = [sample_comment ''a'' 3, sample_comment ''b'' (57 / 10)],
                  response_error = None\<rparr>
      else if text = ''B''
        then Inr \<lparr>response_data = [sample_comment ''b'' 5, sample_comment ''c'' 4],
                  response_error = None\<rparr>
      else if text = ''E'' then Inr \<lparr>response_data = [], response_error = None\<rparr>
      else Inl (Error ''Unexpected token''))"

definition sample_header_Number :: "string \<Rightarrow> jsnum" where
  "sample_header_Number s = (if s = ''2'' then Fin 2 else NaN)"

definition sample_env :: environment where
  "sample_env =
     \<lparr>server = sample_server, Number_of_string = sample_header_Number,
      parseResponse = sample_parse, urlEncode = (\<lambda>s. s), hash = (\<lambda>s. s),
      compare = sample_compare\<rparr>"

definition sample_opts :: PullpushClientOptions where
  "sample_opts =
     \<lparr>opt_product = ''clickup'', opt_monthsPerBatch = 1, opt_startEpoch = 0, opt_endEpoch = 10,
      opt_subreddit = None, opt_namespace = ''pullpush-comments'', opt_pageSize = 100,
      opt_baseUrl = ''https://api.pullpush.io/reddit/search/comment/'', opt_maxRetries = 5,
      opt_retryBackoffMs = 5000\<rparr>"

definition empty_world :: world where
  "empty_world = \<lparr>cache = (\<lambda>key. None), fetches = 0, sleeps = [], page_requests = []\<rparr>"

text \<open>
  A service on a plateau: every page holds one comment, created at 100.
\<close>

definition plateau_env :: environment where
  "plateau_env =
     \<lparr>server = (\<lambda>k. Response \<lparr>http_status = 200, retry_after = None, response_text = ''P''\<rparr>),
      Number_of_string = sample_header_Number,
      parseResponse = (\<lambda>text. Inr \<lparr>response_data = [sample_comment ''p'' 100], response_error = None\<rparr>),
      urlEncode = (\<lambda>s. s), hash = (\<lambda>s. s), compare = sample_compare\<rparr>"

section \<open>analysis/llmCache.ts: the memoizer\<close>

text \<open>
  What one call of \<open>getOrCompute\<close> does to its surroundings, in order: reads and writes of
  the cache (namespace and checksum) and the invocation of \<open>compute\<close>.
\<close>

datatype cache_effect = Cache_read string string | Compute_call | Cache_write string string

text \<open>
  The platform functions that \<open>getOrCompute<T>\<close> uses: the digest and the key comparison of
  \<open>checksumFrom\<close>, and \<open>JSON.stringify\<close> and \<open>JSON.parse\<close> at the type \<open>T\<close> of the results.
\<close>

record 'a json_platform =
  sha256_hex :: "string \<Rightarrow> string"
  localeCompare :: "string \<Rightarrow> string \<Rightarrow> int"
  JSON_stringify :: "'a \<Rightarrow> string"
  JSON_parse :: "string \<Rightarrow> error + 'a"

definition describePayload :: "json \<Rightarrow> string option" where
  "describePayload payload =
     (case payload of
        JObj entries \<Rightarrow> (case map_of entries ''type'' of Some (JStr maybeType) \<Rightarrow> Some maybeType | _ \<Rightarrow> None)
      | _ \<Rightarrow> None)"

text \<open>
  \<open>getOrCompute(payload, compute)\<close> against the store of the cache client. \<open>compute\<close> is
  given as what its invocation settles with; it is invoked exactly when the list of
  effects holds \<open>Compute_call\<close>.
\<close>

definition getOrCompute ::
  "'a json_platform \<Rightarrow> string \<Rightarrow> cache_store \<Rightarrow> json \<Rightarrow> error + 'a
     \<Rightarrow> (error + 'a) \<times> cache_store \<times> cache_effect list" where
  "getOrCompute pf ns store payload compute =
     (let checksum = checksumFrom (sha256_hex pf) (localeCompare pf) payload;
          cached = cache_read store ns checksum
      in case cached of
           Some entry \<Rightarrow> (JSON_parse pf (entry_body entry), store, [Cache_read ns checksum])
         | None \<Rightarrow>
             (case compute of
                Inl e \<Rightarrow> (Inl e, store, [Cache_read ns checksum, Compute_call])
              | Inr result \<Rightarrow>
                  (Inr result,
                   cache_write store ns
                     \<lparr>entry_checksum = checksum, entry_body = JSON_stringify pf result,
                      entry_metadata = (case describePayload payload of
                                          None \<Rightarrow> []
                                        | Some t \<Rightarrow> [(''payloadType'', JStr t)])\<rparr>,
                   [Cache_read ns checksum, Compute_call, Cache_write ns checksum])))"

definition compute_calls :: "cache_effect list \<Rightarrow> nat" where
  "compute_calls effects = length (filter (\<lambda>e. e = Compute_call) effects)"

definition cache_writes :: "cache_effect list \<Rightarrow> nat" where
  "cache_writes effects = length (filter (\<lambda>e. case e of Cache_write n c \<Rightarrow> True | _ \<Rightarrow> False) effects)"

section \<open>analysis/commentAnalyzer.ts: classifyComment and the ordered pipeline of analyze\<close>

datatype Sentiment = VeryNegative | Negative | Neutral | Positive | VeryPositive

datatype ConfidenceBand = VeryLow | Low | Medium | High | VeryHigh

record CategoryDefinition =
  slug :: string
  label :: string
  description :: string
  signals :: "string list"

record ClassificationPayload =
  payload_category :: string
  payload_sentiment :: Sentiment
  payload_categoryConfidence :: ConfidenceBand
  payload_sentimentConfidence :: ConfidenceBand
  payload_summary :: string

record CommentClassification =
  comment :: RedditComment
  category :: string
  sentiment :: Sentiment
  summary :: string
  categoryConfidence :: ConfidenceBand
  sentimentConfidence :: ConfidenceBand

record CommentAnalyzerOptions =
  keyword :: string
  model :: string
  productDescription :: string
  concurrency :: int

record AnalysisResult =
  categories :: "CategoryDefinition list"
  classifications :: "CommentClassification list"

text \<open>The payload under which a classification is cached.\<close>

definition classification_cachePayload ::
  "CommentAnalyzerOptions \<Rightarrow> RedditComment \<Rightarrow> CategoryDefinition list \<Rightarrow> json" where
  "classification_cachePayload opts c cats =
     JObj [(''type'', JStr ''classification''),
           (''version'', JNum 1),
           (''model'', JStr (model opts)),
           (''keyword'', JStr (keyword opts)),
           (''productDescription'', JStr (productDescription opts)),
           (''commentId'', JStr (comment_id c)),
           (''commentBody'', JStr (body c)),
           (''categoriesSnapshot'',
              JArr (map (\<lambda>cat. JObj [(''slug'', JStr (slug cat)),
                                       (''label'', JStr (label cat)),
                                       (''description'', JStr (description cat)),
                                       (''signals'', JArr (map JStr (signals cat)))]) cats))]"

definition no_parsed_output :: error where
  "no_parsed_output = Error ''OpenAI response did not include parsed classification output.''"

text \<open>
  \<open>classifyComment\<close>. The request to the inference service is built from the comment, the
  categories, the index and the total; \<open>response\<close> is what that request settles with, if it
  is made: a rejection, or the \<open>output_parsed\<close> of the response, which is \<open>null\<close> (\<open>None\<close>) when
  the service returned no parsed payload. A cached body may hold \<open>null\<close> as well, which is
  why the result type of the memoizer is the optional payload.
\<close>

definition classifyComment ::
  "ClassificationPayload option json_platform \<Rightarrow> CommentAnalyzerOptions \<Rightarrow> string \<Rightarrow> cache_store
     \<Rightarrow> RedditComment \<Rightarrow> CategoryDefinition list \<Rightarrow> error + ClassificationPayload option
     \<Rightarrow> (error + CommentClassification) \<times> cache_store \<times> cache_effect list" where
  "classifyComment pf opts ns store c cats response =
     (let cachePayload = classification_cachePayload opts c cats;
          compute = (case response of
                       Inl e \<Rightarrow> Inl e
                     | Inr None \<Rightarrow> Inl no_parsed_output
                     | Inr (Some parsedPayload) \<Rightarrow> Inr (Some parsedPayload))
      in case getOrCompute pf ns store cachePayload compute of
           (Inl e, store', effects) \<Rightarrow> (Inl e, store', effects)
         | (Inr None, store', effects) \<Rightarrow> (Inl no_parsed_output, store', effects)
         | (Inr (Some parsed), store', effects) \<Rightarrow>
             (Inr \<lparr>comment = c,
                   category = payload_category parsed,
                   sentiment = payload_sentiment parsed,
                   summary = payload_summary parsed,
                   categoryConfidence = payload_categoryConfidence parsed,
                   sentimentConfidence = payload_sentimentConfidence parsed\<rparr>,
              store', effects))"

text \<open>
  The pipeline of \<open>analyze\<close>: \<open>total\<close> tasks, one per element of \<open>sorted\<close>, run through
  \<open>pLimit(concurrency)\<close>. \<open>outcome i\<close> is what \<open>classifyComment\<close> settles with for the task of
  index \<open>i\<close>; \<open>shouldCollect\<close> and \<open>hasCallback\<close> say whether results are collected and whether
  \<open>options.onClassification\<close> is given.
\<close>

record 'c pipeline =
  total :: nat
  limit :: nat
  shouldCollect :: bool
  hasCallback :: bool
  outcome :: "nat \<Rightarrow> error + 'c"

text \<open>
  The state of one run. The limiter has started the tasks below \<open>started\<close>, in the order
  of their indices; \<open>settled\<close> holds the tasks whose \<open>classifyComment\<close> has settled and
  \<open>finished\<close> those whose promise has settled, which frees their slot. \<open>pending\<close>,
  \<open>nextEmitIndex\<close> and \<open>collected\<close> are the variables of the source, \<open>pending\<close> as the list of
  the entries of the map. \<open>emitted\<close> lists the arguments of the calls of
  \<open>options.onClassification\<close> in order. \<open>suspended\<close> holds the owners of the calls of
  \<open>emitIfReady\<close> that wait at \<open>await options.onClassification(ready)\<close>; an owner is the index
  of a task, or \<open>total\<close> for the call that follows \<open>Promise.all\<close>. \<open>rejection\<close> is the error of
  the first task that rejected, with which \<open>Promise.all\<close> rejects.
\<close>

record 'c run_state =
  started :: nat
  settled :: "nat set"
  finished :: "nat set"
  pending :: "(nat \<times> 'c) list"
  nextEmitIndex :: nat
  collected :: "'c list"
  emitted :: "'c list"
  suspended :: "nat list"
  rejection :: "error option"

definition initial_state :: "'c run_state" where
  "initial_state =
     \<lparr>started = 0, settled = {}, finished = {}, pending = [], nextEmitIndex = 0,
      collected = [], emitted = [], suspended = [], rejection = None\<rparr>"

text \<open>
  \<open>emitIfReady\<close>, run by \<open>owner\<close> up to its next suspension. While \<open>pending\<close> has the index
  \<open>nextEmitIndex\<close>, the entry is taken out and collected; with a callback, the callback is
  called and the loop waits for it, and \<open>nextEmitIndex\<close> is only advanced when the loop is
  resumed (\<open>resume_drain\<close>). When \<open>pending\<close> lacks the index the call returns, and with it the
  function of its owner.
\<close>

function drain :: "'c pipeline \<Rightarrow> nat \<Rightarrow> 'c run_state \<Rightarrow> 'c run_state" where
  "drain p owner st =
     (case map_of (pending st) (nextEmitIndex st) of
        None \<Rightarrow> st\<lparr>finished := insert owner (finished st)\<rparr>
      | Some ready \<Rightarrow>
          (let st1 = st\<lparr>pending := filter (\<lambda>e. fst e \<noteq> nextEmitIndex st) (pending st),
                         collected := (if shouldCollect p then collected st @ [ready] else collected st)\<rparr>
           in if hasCallback p
              then st1\<lparr>emitted := emitted st1 @ [ready], suspended := suspended st1 @ [owner]\<rparr>
              else drain p owner (st1\<lparr>nextEmitIndex := nextEmitIndex st1 + 1\<rparr>)))"
  by pat_completeness auto
termination
proof (relation "measure (\<lambda>(p, owner, st). length (pending st))")
  show "wf (measure (\<lambda>(p, owner, st). length (pending st)))" by simp
next
  fix p :: "'c pipeline" and owner :: nat and st :: "'c run_state" and ready st1
  assume found: "map_of (pending st) (nextEmitIndex st) = Some ready"
    and st1: "st1 = st\<lparr>pending := filter (\<lambda>e. fst e \<noteq> nextEmitIndex st) (pending st),
                       collected := (if shouldCollect p then collected st @ [ready] else collected st)\<rparr>"
  have shorter: "length (filter (\<lambda>e. fst e \<noteq> k) xs) < length xs"
    if "(k, v) \<in> set xs" for k :: nat and v :: 'c and xs
    using that by (induction xs) (auto simp: less_Suc_eq_le)
  have "(nextEmitIndex st, ready) \<in> set (pending st)" using found by (rule map_of_SomeD)
  then have "length (filter (\<lambda>e. fst e \<noteq> nextEmitIndex st) (pending st)) < length (pending st)"
    by (rule shorter)
  then show "((p, owner, st1\<lparr>nextEmitIndex := nextEmitIndex st1 + 1\<rparr>), p, owner, st)
               \<in> measure (\<lambda>(p, owner, st). length (pending st))"
    using st1 by simp
qed

declare drain.simps [simp del]

definition resume_drain :: "'c pipeline \<Rightarrow> nat \<Rightarrow> 'c run_state \<Rightarrow> 'c run_state" where
  "resume_drain p owner st =
     drain p owner (st\<lparr>suspended := remove1 owner (suspended st),
                       nextEmitIndex := nextEmitIndex st + 1\<rparr>)"

text \<open>
  The events of a run, each enabled only in some states. \<open>Admit\<close>: the limiter starts the
  next queued task, which needs a free slot. \<open>Settle i\<close>: \<open>classifyComment\<close> of the started
  task \<open>i\<close> settles; on an error the task rejects, otherwise it stores its result in
  \<open>pending\<close> and calls \<open>emitIfReady\<close>. \<open>Resume t\<close>: the callback awaited by the call of
  \<open>emitIfReady\<close> of \<open>t\<close> has fulfilled (the callback is taken to fulfil). \<open>Join\<close>: all tasks
  have fulfilled, so \<open>Promise.all\<close> fulfils and \<open>analyze\<close> calls \<open>emitIfReady\<close> a last time.
\<close>

datatype event = Admit | Settle nat | Resume nat | Join

definition active :: "'c pipeline \<Rightarrow> 'c run_state \<Rightarrow> nat" where
  "active p st = started st - card (finished st - {total p})"

fun step :: "'c pipeline \<Rightarrow> event \<Rightarrow> 'c run_state \<Rightarrow> 'c run_state option" where
  "step p Admit st =
     (if started st < total p \<and> active p st < limit p
      then Some (st\<lparr>started := started st + 1\<rparr>) else None)"
| "step p (Settle i) st =
     (if i < started st \<and> i \<notin> settled st then
        (case outcome p i of
           Inl e \<Rightarrow>
             Some (st\<lparr>settled := insert i (settled st), finished := insert i (finished st),
                      rejection := (case rejection st of None \<Rightarrow> Some e | Some e0 \<Rightarrow> Some e0)\<rparr>)
         | Inr classification \<Rightarrow>
             Some (drain p i (st\<lparr>settled := insert i (settled st),
                                  pending := Map_set i classification (pending st)\<rparr>)))
      else None)"
| "step p (Resume t) st =
     (if t \<in> set (suspended st) then Some (resume_drain p t st) else None)"
| "step p Join st =
     (if (\<forall>i<total p. i \<in> finished st) \<and> rejection st = None
         \<and> total p \<notin> finished st \<and> total p \<notin> set (suspended st)
      then Some (drain p (total p) st) else None)"

fun run :: "'c pipeline \<Rightarrow> event list \<Rightarrow> 'c run_state \<Rightarrow> 'c run_state option" where
  "run p [] st = Some st"
| "run p (ev # evs) st = (case step p ev st of None \<Rightarrow> None | Some st' \<Rightarrow> run p evs st')"

text \<open>
  What the promises of the run have settled with so far: \<open>Promise.all\<close> rejects with the
  first rejection, and \<open>analyze\<close> with it; \<open>analyze\<close> returns once its last call of
  \<open>emitIfReady\<close> has returned; before that the result is still open (\<open>None\<close>).
\<close>

definition pipeline_result :: "'c pipeline \<Rightarrow> 'c run_state \<Rightarrow> (error + 'c list) option" where
  "pipeline_result p st =
     (case rejection st of
        Some e \<Rightarrow> Some (Inl e)
      | None \<Rightarrow>
          (if total p \<in> finished st
           then Some (Inr (if shouldCollect p then collected st else []))
           else None))"

text \<open>
  \<open>analyze(comments, options)\<close> along a schedule of events. \<open>discovered\<close> is what the
  discovery of the categories settles with, \<open>classify c i\<close> what \<open>classifyComment\<close> settles
  with for the comment \<open>c\<close> at index \<open>i\<close> of \<open>sorted\<close>; \<open>collect\<close> is
  \<open>options.collectClassifications\<close> and \<open>onClassification\<close> says whether that callback is
  given. \<open>pLimit\<close> throws unless the concurrency is at least 1. A schedule that names an
  event which is not enabled is no run of the program (\<open>None\<close>), as is one that stops
  before the result is settled.
\<close>

definition analyze_pipeline ::
  "CommentAnalyzerOptions \<Rightarrow> RedditComment list \<Rightarrow> bool option \<Rightarrow> bool
     \<Rightarrow> (RedditComment \<Rightarrow> nat \<Rightarrow> error + CommentClassification) \<Rightarrow> CommentClassification pipeline" where
  "analyze_pipeline opts comments collect onClassification classify =
     (let sorted = sort_key (\<lambda>c. - createdUtc c) comments in
      \<lparr>total = length sorted, limit = nat (concurrency opts),
       shouldCollect = (case collect of Some b \<Rightarrow> b | None \<Rightarrow> \<not> onClassification),
       hasCallback = onClassification,
       outcome = (\<lambda>index. classify (sorted ! index) index)\<rparr>)"

definition analyze ::
  "CommentAnalyzerOptions \<Rightarrow> RedditComment list \<Rightarrow> bool option \<Rightarrow> bool
     \<Rightarrow> error + CategoryDefinition list
     \<Rightarrow> (RedditComment \<Rightarrow> nat \<Rightarrow> error + CommentClassification)
     \<Rightarrow> event list \<Rightarrow> (error + AnalysisResult) option" where
  "analyze opts comments collect onClassification discovered classify schedule =
     (if comments = [] then Some (Inr \<lparr>categories = [], classifications = []\<rparr>)
      else
        (case discovered of
           Inl e \<Rightarrow> Some (Inl e)
         | Inr cats \<Rightarrow>
             (if concurrency opts < 1
              then Some (Inl (Error ''Expected `concurrency` to be a number from 1 and up''))
              else
                (let p = analyze_pipeline opts comments collect onClassification classify in
                 case run p schedule initial_state of
                   None \<Rightarrow> None
                 | Some st \<Rightarrow>
                     (case pipeline_result p st of
                        None \<Rightarrow> None
                      | Some (Inl e) \<Rightarrow> Some (Inl e)
                      | Some (Inr cs) \<Rightarrow> Some (Inr \<lparr>categories = cats, classifications = cs\<rparr>))))))"

text \<open>
  The number of results handed on so far: a call of \<open>emitIfReady\<close> that waits for the
  callback has handed on the entry of \<open>nextEmitIndex\<close> already.
\<close>

definition front :: "'c run_state \<Rightarrow> nat" where
  "front st = nextEmitIndex st + length (suspended st)"

text \<open>
  The invariant of the pipeline when every task settles with a result, \<open>val i\<close> for the
  task \<open>i\<close>. \<open>running\<close> is the owner of the call of \<open>emitIfReady\<close> that is being executed, if
  the state is one inside a step.
\<close>

definition inv_limiter :: "'c pipeline \<Rightarrow> 'c run_state \<Rightarrow> bool" where
  "inv_limiter p st \<longleftrightarrow> started st \<le> total p \<and> settled st \<subseteq> {..<started st}"

definition inv_owners :: "'c pipeline \<Rightarrow> nat option \<Rightarrow> 'c run_state \<Rightarrow> bool" where
  "inv_owners p running st \<longleftrightarrow>
     finished st \<subseteq> insert (total p) (settled st)
     \<and> (\<forall>i\<in>settled st. i \<in> finished st \<or> i \<in> set (suspended st) \<or> running = Some i)
     \<and> length (suspended st) \<le> 1
     \<and> (\<forall>t\<in>set (suspended st). t \<notin> finished st \<and> t \<le> total p \<and> hasCallback p
            \<and> running \<noteq> Some t \<and> (t < total p \<longrightarrow> t \<in> settled st))
     \<and> (\<forall>t. running = Some t \<longrightarrow> t \<notin> finished st \<and> t \<le> total p \<and> (t < total p \<longrightarrow> t \<in> settled st))
     \<and> (total p \<in> finished st \<or> total p \<in> set (suspended st) \<or> running = Some (total p)
          \<longrightarrow> (\<forall>i<total p. i \<in> finished st))"

definition inv_buffer :: "'c pipeline \<Rightarrow> (nat \<Rightarrow> 'c) \<Rightarrow> nat option \<Rightarrow> 'c run_state \<Rightarrow> bool" where
  "inv_buffer p val running st \<longleftrightarrow>
     front st \<le> total p
     \<and> (\<forall>i<front st. i \<in> settled st)
     \<and> (\<forall>k c. map_of (pending st) k = Some c \<longrightarrow>
            k \<in> settled st \<and> c = val k \<and> nextEmitIndex st \<le> k
            \<and> (running = None \<or> suspended st \<noteq> [] \<longrightarrow> nextEmitIndex st < k))
     \<and> (\<forall>k\<in>settled st. k < front st \<or> map_of (pending st) k = Some (val k))"

definition inv_output :: "'c pipeline \<Rightarrow> (nat \<Rightarrow> 'c) \<Rightarrow> 'c run_state \<Rightarrow> bool" where
  "inv_output p val st \<longleftrightarrow>
     emitted st = (if hasCallback p then map val [0..<front st] else [])
     \<and> collected st = (if shouldCollect p then map val [0..<front st] else [])
     \<and> rejection st = None"

definition pipeline_inv :: "'c pipeline \<Rightarrow> (nat \<Rightarrow> 'c) \<Rightarrow> nat option \<Rightarrow> 'c run_state \<Rightarrow> bool" where
  "pipeline_inv p val running st \<longleftrightarrow>
     inv_limiter p st \<and> inv_owners p running st \<and> inv_buffer p val running st \<and> inv_output p val st"

text \<open>
  Three comments and their classifications, to run \<open>analyze\<close> on: the newest comment is
  \<open>y\<close>, then \<open>z\<close>, then \<open>x\<close>.
\<close>

definition sample_reddit_comment :: "string \<Rightarrow> int \<Rightarrow> RedditComment" where
  "sample_reddit_comment i t =
     \<lparr>comment_id = i, body = ''text of '' @ i, createdUtc = t, permalink = ''/r/x/'' @ i,
      subreddit = ''x''\<rparr>"

definition sample_comments :: "RedditComment list" where
  "sample_comments =
     [sample_reddit_comment ''x'' 1, sample_reddit_comment ''y'' 3, sample_reddit_comment ''z'' 2]"

definition sample_classification :: "RedditComment \<Rightarrow> CommentClassification" where
  "sample_classification c =
     \<lparr>comment = c, category = ''unrelated'', sentiment = Neutral, summary = ''about '' @ comment_id c,
      categoryConfidence = High, sentimentConfidence = Medium\<rparr>"

definition sample_analyzer_options :: CommentAnalyzerOptions where
  "sample_analyzer_options =
     \<lparr>keyword = ''clickup'', model = ''gpt-5-nano-2025-08-07'',
      productDescription = ''The product'', concurrency = 3\<rparr>"

definition sample_pipeline :: "CommentClassification pipeline" where
  "sample_pipeline =
     analyze_pipeline sample_analyzer_options sample_comments (Some True) True
       (\<lambda>c i. Inr (sample_classification c))"

text \<open>
  A schedule in which the third task settles first, then the first, then the second.
\<close>

definition sample_schedule :: "event list" where
  "sample_schedule =
     [Admit, Admit, Admit, Settle 2, Settle 0, Resume 0, Settle 1, Resume 1, Resume 1, Join]"

text \<open>The error of the first task of a schedule that settles with an error.\<close>

fun first_failure :: "'c pipeline \<Rightarrow> event list \<Rightarrow> error option" where
  "first_failure p [] = None"
| "first_failure p (ev # evs) =
     (case ev of
        Settle i \<Rightarrow> (case outcome p i of Inl e \<Rightarrow> Some e | Inr c \<Rightarrow> first_failure p evs)
      | _ \<Rightarrow> first_failure p evs)"

text \<open>
  A platform for the memoizer of classifications, and a run of \<open>analyze\<close> in which the
  inference service returns no parsed payload for the comment \<open>z\<close>.
\<close>

definition sample_json_platform :: "ClassificationPayload option json_platform" where
  "sample_json_platform =
     \<lparr>sha256_hex = (\<lambda>s. s), localeCompare = sample_compare,
      JSON_stringify = (\<lambda>v. case v of None \<Rightarrow> ''null'' | Some c \<Rightarrow> payload_summary c),
      JSON_parse = (\<lambda>s. if s = ''null'' then Inr None else Inl (Error ''Unexpected token''))\<rparr>"

definition sample_payload :: "RedditComment \<Rightarrow> ClassificationPayload" where
  "sample_payload c =
     \<lparr>payload_category = ''unrelated'', payload_sentiment = Neutral,
      payload_categoryConfidence = High, payload_sentimentConfidence = Medium,
      payload_summary = ''about '' @ comment_id c\<rparr>"

definition failing_classify :: "RedditComment \<Rightarrow> nat \<Rightarrow> error + CommentClassification" where
  "failing_classify c i =
     fst (classifyComment sample_json_platform sample_analyzer_options ''openai-responses''
            (\<lambda>key. None) c []
            (if comment_id c = ''z'' then Inr None else Inr (Some (sample_payload c))))"

text \<open>
  A schedule for that run: the task of \<open>y\<close> settles and its result is handed to the
  callback, then the task of \<open>z\<close> settles with the error.
\<close>

definition failing_schedule :: "event list" where
  "failing_schedule = [Admit, Admit, Admit, Settle 0, Settle 1]"

section \<open>csv/writer.ts: csvEscape and writeRow\<close>


text \<open>\<open>value.replace(/\r?\n/g, ' ')\<close>: every line feed, with a carriage return before it if there is one, becomes a space.\<close>

fun replace_newlines :: "string \<Rightarrow> string" where
  "replace_newlines [] = []"
| "replace_newlines [c] = (if c = CHR 0x0A then '' '' else [c])"
| "replace_newlines (c # d # cs) =
     (if c = CHR 0x0D \<and> d = CHR 0x0A then CHR '' '' # replace_newlines cs
      else if c = CHR 0x0A then CHR '' '' # replace_newlines (d # cs)
      else c # replace_newlines (d # cs))"









section \<open>Properties\<close>

subsection \<open>toUnixSeconds\<close>

text \<open>
  C10. For a string on which \<open>Number\<close> yields a non-NaN value, \<open>toUnixSeconds\<close> returns the
  floor of that number and makes no call of \<open>Date.parse\<close>; \<open>Date.parse\<close> is called exactly
  for the strings on which \<open>Number\<close> yields NaN; and a string on which both conversions
  yield NaN makes \<open>toUnixSeconds\<close> throw.
\<close>

theorem toUnixSeconds_numeric_first:
  "(toNumber s \<noteq> NaN \<longrightarrow>
      toUnixSeconds toNumber Date_parse (StrValue s) = (Inr (Math_floor (toNumber s)), [Call_Number s]))
   \<and> (Call_Date_parse s \<in> set (snd (toUnixSeconds toNumber Date_parse (StrValue s)))
        \<longleftrightarrow> toNumber s = NaN)
   \<and> (toNumber s = NaN \<and> Date_parse s = NaN \<longrightarrow>
        fst (toUnixSeconds toNumber Date_parse (StrValue s))
          = Inl (Error (''Unable to parse time value: '' @ s)))"
  by (simp add: toUnixSeconds_def Let_def)

theorem toUnixSeconds_numeric_first_witness:
  "toUnixSeconds sample_Number sample_Date_parse (StrValue ''2017'') = (Inr (Fin 2017), [Call_Number ''2017''])
   \<and> toUnixSeconds sample_Number sample_Date_parse (StrValue []) = (Inr (Fin 0), [Call_Number []])
   \<and> fst (toUnixSeconds sample_Number sample_Date_parse (StrValue ''soon''))
        = Inl (Error ''Unable to parse time value: soon'')"
  using toUnixSeconds_numeric_first [of sample_Number "''2017''" sample_Date_parse]
        toUnixSeconds_numeric_first [of sample_Number "[]" sample_Date_parse]
        toUnixSeconds_numeric_first [of sample_Number "''soon''" sample_Date_parse]
  by (simp add: sample_Number_def sample_Date_parse_def)

subsection \<open>Calendar arithmetic and splitIntoMonthlyRanges\<close>




lemma div_bounds:
  fixes x k :: int
  shows "0 < k \<Longrightarrow> k * (x div k) \<le> x" and "0 < k \<Longrightarrow> x < k * (x div k) + k"
proof -
  have x: "x = k * (x div k) + x mod k" by simp
  have m: "0 < k \<Longrightarrow> 0 \<le> x mod k" "0 < k \<Longrightarrow> x mod k < k" by simp_all
  show "0 < k \<Longrightarrow> k * (x div k) \<le> x" using x m(1) by linarith
  show "0 < k \<Longrightarrow> x < k * (x div k) + k" using x m(2) by linarith
qed

lemma DayFromYear_bounds:
  "146097 * y - 287811596 \<le> 400 * DayFromYear y"
  "400 * DayFromYear y \<le> 146097 * y - 287810501"
proof -
  define a where "a = (y - 1969) div 4"
  define b where "b = (y - 1901) div 100"
  define e where "e = (y - 1601) div 400"
  have a: "4 * a \<le> y - 1969" "y - 1969 < 4 * a + 4"
    unfolding a_def by (rule div_bounds; simp)+
  have b: "100 * b \<le> y - 1901" "y - 1901 < 100 * b + 100"
    unfolding b_def by (rule div_bounds; simp)+
  have e: "400 * e \<le> y - 1601" "y - 1601 < 400 * e + 400"
    unfolding e_def by (rule div_bounds; simp)+
  have D: "400 * DayFromYear y = 146000 * y - 287620000 + 400 * a - 400 * b + 400 * e"
    by (simp add: DayFromYear_def a_def b_def e_def)
  show "146097 * y - 287811596 \<le> 400 * DayFromYear y"
    unfolding D using a b e by linarith
  show "400 * DayFromYear y \<le> 146097 * y - 287810501"
    unfolding D using a b e by linarith
qed

lemma YearFromDay_correct:
  "DayFromYear (YearFromDay d) \<le> d \<and> d < DayFromYear (YearFromDay d + 1)"
proof -
  define q where "q = (400 * d) div 146097"
  define c where "c = 1970 + q"
  have q: "146097 * q \<le> 400 * d" "400 * d < 146097 * q + 146097"
    unfolding q_def by (rule div_bounds; simp)+
  have lo: "DayFromYear (c - 1) \<le> d"
    using DayFromYear_bounds(2) [of "c - 1"] q unfolding c_def by simp
  have hi: "d < DayFromYear (c + 2)"
    using DayFromYear_bounds(1) [of "c + 2"] q unfolding c_def by simp
  have "YearFromDay d = (if DayFromYear (c + 1) \<le> d then c + 1
      else if DayFromYear c \<le> d then c else c - 1)"
    by (simp add: YearFromDay_def c_def q_def Let_def)
  then show ?thesis using lo hi by (auto simp: add.commute)
qed
















text \<open>
  The ranges of that run: 2017-01-01 to 2017-04-01, to 2017-07-01, and the remainder up
  to the end of the interval.
\<close>

lemma splitIntoMonthlyRanges_example:
  "splitIntoMonthlyRanges 1483228800 1500000000 3 =
     Inr [\<lparr>range_start = 1483228800, range_end = Some 1491004800\<rparr>,
          \<lparr>range_start = 1491004800, range_end = Some 1498867200\<rparr>,
          \<lparr>range_start = 1498867200, range_end = Some 1500000000\<rparr>]"
  by code_simp


text \<open>
  Just below the last valid date the end of the range is read off an invalid date.
\<close>

lemma splitIntoMonthlyRanges_invalid_end:
  "splitIntoMonthlyRanges 8639999999999 8640000000000 1
     = Inr [\<lparr>range_start = 8639999999999, range_end = None\<rparr>]"
  by code_simp

subsection \<open>canonicalize and checksumFrom\<close>

lemma set_insert_entry: "set (insert_entry lc a ys) = insert a (set ys)"
  by (induction ys) auto

lemma mset_insert_entry: "mset (insert_entry lc a ys) = add_mset a (mset ys)"
  by (induction ys) auto

lemma mset_sort_entries: "mset (sort_entries lc kvs) = mset kvs"
  unfolding sort_entries_def by (induction kvs) (simp_all add: mset_insert_entry)

lemma set_sort_entries: "set (sort_entries lc kvs) = set kvs"
  using mset_sort_entries [of lc kvs] by (metis set_mset_mset)

lemma sorted_insert_entry:
  assumes "linear_compare lc" "sorted_wrt (key_le lc) ys"
  shows "sorted_wrt (key_le lc) (insert_entry lc a ys)"
  using assms(2)
proof (induction ys)
  case Nil
  then show ?case by simp
next
  case (Cons y ys)
  show ?case
  proof (cases "lc (fst a) (fst y) \<le> 0")
    case True
    have "key_le lc a z" if "z \<in> set ys" for z
    proof -
      have "key_le lc y z" using Cons.prems that by simp
      then show ?thesis using True assms(1) unfolding key_le_def linear_compare_def by blast
    qed
    then show ?thesis using True Cons.prems by (simp add: key_le_def)
  next
    case False
    then have "key_le lc y a" using assms(1) unfolding key_le_def linear_compare_def by blast
    then show ?thesis using False Cons by (auto simp: set_insert_entry)
  qed
qed

lemma sorted_sort_entries:
  "linear_compare lc \<Longrightarrow> sorted_wrt (key_le lc) (sort_entries lc kvs)"
  unfolding sort_entries_def by (induction kvs) (simp_all add: sorted_insert_entry)

lemma sorted_unique:
  assumes lin: "linear_compare lc"
  shows "sorted_wrt (key_le lc) xs \<Longrightarrow> sorted_wrt (key_le lc) ys \<Longrightarrow> mset xs = mset ys
         \<Longrightarrow> distinct (map fst xs) \<Longrightarrow> xs = ys"
proof (induction xs arbitrary: ys)
  case Nil
  then show ?case by simp
next
  case (Cons x xs)
  then obtain y ys' where ys: "ys = y # ys'" by (cases ys) auto
  have sets: "set (x # xs) = set (y # ys')" using Cons.prems(3) ys by (metis set_mset_mset)
  have dk: "\<And>a b. a \<in> set (x # xs) \<Longrightarrow> b \<in> set (x # xs) \<Longrightarrow> fst a = fst b \<Longrightarrow> a = b"
    using Cons.prems(4) by (meson distinct_map inj_onD)
  have xy: "key_le lc x y"
  proof (cases "y = x")
    case True
    then show ?thesis using lin unfolding key_le_def linear_compare_def by blast
  next
    case False
    then have "y \<in> set xs" using sets by auto
    then show ?thesis using Cons.prems(1) by simp
  qed
  have yx: "key_le lc y x"
  proof (cases "y = x")
    case True
    then show ?thesis using lin unfolding key_le_def linear_compare_def by blast
  next
    case False
    then have "x \<in> set ys'" using sets by auto
    then show ?thesis using Cons.prems(2) ys by simp
  qed
  have "fst x = fst y" using xy yx lin unfolding key_le_def linear_compare_def by blast
  then have "x = y" using dk [of x y] sets by auto
  moreover have "xs = ys'"
  proof (rule Cons.IH)
    show "sorted_wrt (key_le lc) xs" using Cons.prems(1) by simp
    show "sorted_wrt (key_le lc) ys'" using Cons.prems(2) ys by simp
    show "mset xs = mset ys'" using Cons.prems(3) ys \<open>x = y\<close> by simp
    show "distinct (map fst xs)" using Cons.prems(4) by simp
  qed
  ultimately show ?case using ys by simp
qed

lemma sort_entries_perm:
  assumes "linear_compare lc" "mset xs = mset ys" "distinct (map fst xs)"
  shows "sort_entries lc xs = sort_entries lc ys"
proof (rule sorted_unique [OF assms(1)])
  show "sorted_wrt (key_le lc) (sort_entries lc xs)" "sorted_wrt (key_le lc) (sort_entries lc ys)"
    using assms(1) by (rule sorted_sort_entries)+
  show "mset (sort_entries lc xs) = mset (sort_entries lc ys)"
    using assms(2) by (simp add: mset_sort_entries)
  have "mset (map fst (sort_entries lc xs)) = mset (map fst xs)"
    by (simp add: mset_sort_entries)
  then show "distinct (map fst (sort_entries lc xs))"
    using assms(3) by (metis mset_eq_imp_distinct_iff)
qed

lemma insert_entry_rel:
  assumes "fst a = fst b" "R a b" "list_all2 (\<lambda>x y. fst x = fst y \<and> R x y) xs ys"
  shows "list_all2 (\<lambda>x y. fst x = fst y \<and> R x y) (insert_entry lc a xs) (insert_entry lc b ys)"
  using assms(3)
proof (induction xs ys rule: list_all2_induct)
  case Nil
  then show ?case using assms by simp
next
  case (Cons x xs y ys)
  then show ?case using assms by auto
qed

lemma sort_entries_rel:
  assumes "list_all2 (\<lambda>x y. fst x = fst y \<and> R x y) xs ys"
  shows "list_all2 (\<lambda>x y. fst x = fst y \<and> R x y) (sort_entries lc xs) (sort_entries lc ys)"
  using assms unfolding sort_entries_def
proof (induction xs ys rule: list_all2_induct)
  case Nil
  then show ?case by simp
next
  case (Cons x xs y ys)
  then show ?case by (simp add: insert_entry_rel)
qed

lemma canonicalize_same_value:
  assumes lin: "linear_compare lc"
  shows "same_value v w \<Longrightarrow> wf_json v \<Longrightarrow> wf_json w \<Longrightarrow> canonicalize lc v = canonicalize lc w"
proof (induction rule: same_value.induct)
  case (sv_arr xs ys)
  have "map (canonicalize lc) xs = map (canonicalize lc) ys"
    using sv_arr.IH sv_arr.prems
  proof (induction xs ys rule: list_all2_induct)
    case Nil
    then show ?case by simp
  next
    case (Cons x xs y ys)
    then show ?case by simp
  qed
  then show ?case by simp
next
  case (sv_obj kvs ws kvs')
  let ?render = "\<lambda>kv. quote (fst kv) @ '':'' @ canonicalize lc (snd kv)"
  have keys: "map fst kvs = map fst ws"
    using sv_obj.IH by (induction kvs ws rule: list_all2_induct) auto
  have dws: "distinct (map fst ws)" using sv_obj.prems(1) keys by simp
  have wfws: "\<forall>kv\<in>set ws. wf_json (snd kv)"
    using sv_obj.prems(2) sv_obj.hyps by (metis set_mset_mset wf_json.simps(2))
  have rel: "list_all2 (\<lambda>x y. fst x = fst y \<and> ?render x = ?render y) kvs ws"
    using sv_obj.IH sv_obj.prems(1) wfws
  proof (induction kvs ws rule: list_all2_induct)
    case Nil
    then show ?case by simp
  next
    case (Cons x xs y ys)
    then show ?case by simp
  qed
  have "list_all2 (\<lambda>x y. fst x = fst y \<and> ?render x = ?render y) (sort_entries lc kvs) (sort_entries lc ws)"
    by (rule sort_entries_rel [OF rel])
  then have "map ?render (sort_entries lc kvs) = map ?render (sort_entries lc ws)"
    by (induction rule: list_all2_induct) auto
  moreover have "sort_entries lc ws = sort_entries lc kvs'"
    by (rule sort_entries_perm [OF lin sv_obj.hyps dws])
  ultimately show ?case by (simp add: Let_def)
qed simp_all


subsection \<open>The canonical form determines the value\<close>

lemma digit_char_cases:
  "d < 10 \<Longrightarrow> d = 0 \<or> d = 1 \<or> d = 2 \<or> d = 3 \<or> d = 4 \<or> d = 5 \<or> d = 6 \<or> d = 7 \<or> d = 8 \<or> d = (9::nat)"
  by arith

lemma digit_char_digit:
  assumes "d < 10"
  shows "is_digit (digit_char d)" "digit_val (digit_char d) = d"
  using digit_char_cases [OF assms]
  by (auto simp: digit_char_def is_digit_def digit_val_def)

lemma hex_cases:
  "d < 16 \<Longrightarrow> d < 10 \<or> d = 10 \<or> d = 11 \<or> d = 12 \<or> d = 13 \<or> d = 14 \<or> d = (15::nat)"
  by arith

lemma digit_val_hex:
  assumes "d < 16"
  shows "digit_val (digit_char d) = d"
  using hex_cases [OF assms] digit_char_digit(2) [of d]
  by (auto simp: digit_char_def digit_val_def)

lemma string_of_nat_digits: "\<forall>c\<in>set (string_of_nat n). is_digit c"
proof (induction n rule: string_of_nat.induct)
  case (1 n)
  show ?case
  proof (cases "n < 10")
    case True
    then show ?thesis by (subst string_of_nat.simps) (simp add: digit_char_digit)
  next
    case False
    then show ?thesis using 1 by (subst string_of_nat.simps) (simp add: digit_char_digit)
  qed
qed

lemma string_of_nat_nonempty: "string_of_nat n \<noteq> []"
  by (subst string_of_nat.simps) simp

lemma nat_of_digits_snoc: "nat_of_digits (s @ [c]) = 10 * nat_of_digits s + digit_val c"
  by (simp add: nat_of_digits_def)

lemma nat_of_digits_string_of_nat: "nat_of_digits (string_of_nat n) = n"
proof (induction n rule: string_of_nat.induct)
  case (1 n)
  show ?case
  proof (cases "n < 10")
    case True
    then show ?thesis
      by (subst string_of_nat.simps) (simp add: nat_of_digits_def digit_char_digit)
  next
    case False
    then show ?thesis using 1
      by (subst string_of_nat.simps) (simp add: nat_of_digits_snoc digit_char_digit)
  qed
qed

lemma string_of_nat_inj: "string_of_nat n = string_of_nat m \<Longrightarrow> n = m"
  by (metis nat_of_digits_string_of_nat)
subsection \<open>The paginated fetcher\<close>









lemma Map_set_keys:
  "map fst (Map_set k v m) = (if k \<in> set (map fst m) then map fst m else map fst m @ [k])"
  by (induction m) auto

lemma Map_set_distinct: "distinct (map fst m) \<Longrightarrow> distinct (map fst (Map_set k v m))"
  by (simp add: Map_set_keys)

lemma Map_set_values:
  "set (Map_set k v m) \<subseteq> insert (k, v) (set m)"
  by (induction m) auto

lemma Map_set_keyed: "keyed m \<Longrightarrow> keyed (Map_set (comment_id c) c m)"
  unfolding keyed_def using Map_set_values [of "comment_id c" c m] by auto

lemma dedup_chunk_inv:
  "distinct (map fst m) \<Longrightarrow> keyed m \<Longrightarrow>
     distinct (map fst (dedup_chunk chunk m)) \<and> keyed (dedup_chunk chunk m)
     \<and> set (map fst (dedup_chunk chunk m)) = set (map fst m) \<union> set (map comment_id chunk)"
  unfolding dedup_chunk_def
proof (induction chunk arbitrary: m)
  case Nil
  then show ?case by simp
next
  case (Cons c chunk)
  have d: "distinct (map fst (Map_set (comment_id c) c m))" using Cons.prems(1) by (rule Map_set_distinct)
  have k: "keyed (Map_set (comment_id c) c m)" using Cons.prems(2) by (rule Map_set_keyed)
  have s: "set (map fst (Map_set (comment_id c) c m)) = insert (comment_id c) (set (map fst m))"
    by (auto simp: Map_set_keys)
  from Cons.IH [OF d k] s show ?case by auto
qed

lemma fetchAll_loop_inv:
  "fetchAll_loop env opts ranges m w = (Inr m', w') \<Longrightarrow> distinct (map fst m) \<Longrightarrow> keyed m \<Longrightarrow>
     distinct (map fst m') \<and> keyed m'
     \<and> set (map fst m') = set (map fst m) \<union> set (map comment_id (fetched_records env opts ranges w))"
proof (induction ranges arbitrary: m w)
  case Nil
  then show ?case by simp
next
  case (Cons rng ranges)
  obtain r w1 where fr: "fetchRange env opts rng w = (r, w1)" by force
  with Cons.prems(1) obtain chunk where r: "r = Inr chunk"
    and rec: "fetchAll_loop env opts ranges (dedup_chunk chunk m) w1 = (Inr m', w')"
    by (cases r) auto
  note inv = dedup_chunk_inv [OF Cons.prems(2,3), of chunk]
  from Cons.IH [OF rec] inv fr r show ?case by auto
qed

lemma keyed_ids: "keyed m \<Longrightarrow> map comment_id (map snd m) = map fst m"
  unfolding keyed_def by (induction m) auto

lemma fetchAll_result:
  assumes "fetchAll env opts w = (Inr cs, w')"
  shows "distinct (map comment_id cs) \<and> sorted (map createdUtc cs)
     \<and> (\<forall>ranges. splitIntoMonthlyRanges (opt_startEpoch opts) (opt_endEpoch opts) (opt_monthsPerBatch opts) = Inr ranges
          \<longrightarrow> set (map comment_id cs) = set (map comment_id (fetched_records env opts ranges w)))"
proof -
  from assms obtain ranges m where
    sp: "splitIntoMonthlyRanges (opt_startEpoch opts) (opt_endEpoch opts) (opt_monthsPerBatch opts) = Inr ranges"
    and lp: "fetchAll_loop env opts ranges [] w = (Inr m, w')"
    and cs: "cs = sort_key createdUtc (map snd m)"
    unfolding fetchAll_def by (auto split: sum.splits prod.splits)
  have inv: "distinct (map fst m)" "keyed m"
    "set (map fst m) = set (map comment_id (fetched_records env opts ranges w))"
    using fetchAll_loop_inv [OF lp] by (simp_all add: keyed_def)
  have ms: "mset (map comment_id cs) = mset (map fst m)"
    unfolding cs using keyed_ids [OF inv(2)] by (metis mset_map mset_sort)
  have "distinct (map comment_id cs)"
    using ms inv(1) by (metis mset_eq_imp_distinct_iff)
  moreover have "sorted (map createdUtc cs)" unfolding cs by (rule sorted_sort_key)
  moreover have "set (map comment_id cs) = set (map comment_id (fetched_records env opts ranges w))"
    using ms inv(3) by (metis set_mset_mset)
  ultimately show ?thesis using sp by simp
qed



lemma fetchRange_plateau_requests:
  "page_requests (snd (fetchRange plateau_env sample_opts
                         \<lparr>range_start = 100, range_end = Some 103\<rparr> empty_world))
     = [(100, 103), (101, 103), (102, 103)]"
  by code_simp

text \<open>
  C8. When \<open>fetchAll\<close> returns, no comment id occurs twice in the result, the result is
  in ascending order of \<open>createdUtc\<close>, and its ids are the ids of the records that the
  pages of the run returned.
\<close>

theorem fetchAll_deduplicated_sorted:
  assumes "fetchAll env opts w = (Inr cs, w')"
  shows "distinct (map comment_id cs) \<and> sorted (map createdUtc cs)
     \<and> (\<forall>ranges. splitIntoMonthlyRanges (opt_startEpoch opts) (opt_endEpoch opts) (opt_monthsPerBatch opts) = Inr ranges
          \<longrightarrow> set (map comment_id cs) = set (map comment_id (fetched_records env opts ranges w)))"
  using assms by (rule fetchAll_result)

theorem fetchAll_deduplicated_sorted_witness:
  "fst (fetchAll sample_env sample_opts empty_world)
     = Inr [map_comment (sample_comment ''a'' 3), map_comment (sample_comment ''c'' 4),
            map_comment (sample_comment ''b'' 5)]
   \<and> map comment_id (fetched_records sample_env sample_opts
                        [\<lparr>range_start = 0, range_end = Some 10\<rparr>] empty_world)
       = [''a'', ''b'', ''b'', ''c'']
   \<and> distinct [''a'', ''c'', ''b''] \<and> sorted [3, 4, 5 :: int]
   \<and> set [''a'', ''c'', ''b''] = set [''a'', ''b'', ''b'', ''c'']"
proof -
  define cs where "cs = [map_comment (sample_comment ''a'' 3), map_comment (sample_comment ''c'' 4),
            map_comment (sample_comment ''b'' 5)]"
  have f: "fst (fetchAll sample_env sample_opts empty_world) = Inr cs"
    unfolding cs_def by code_simp
  then have "fetchAll sample_env sample_opts empty_world
      = (Inr cs, snd (fetchAll sample_env sample_opts empty_world))"
    by (simp add: prod_eq_iff)
  note t = fetchAll_deduplicated_sorted [OF this]
  have sp: "splitIntoMonthlyRanges (opt_startEpoch sample_opts) (opt_endEpoch sample_opts)
              (opt_monthsPerBatch sample_opts) = Inr [\<lparr>range_start = 0, range_end = Some 10\<rparr>]"
    by code_simp
  have fr: "map comment_id (fetched_records sample_env sample_opts
                        [\<lparr>range_start = 0, range_end = Some 10\<rparr>] empty_world)
       = [''a'', ''b'', ''b'', ''c'']"
    by code_simp
  have ids: "map comment_id cs = [''a'', ''c'', ''b'']" "map createdUtc cs = [3, 4, 5]"
    by (simp_all add: cs_def map_comment_def sample_comment_def)
  from t sp have "distinct (map comment_id cs)" "sorted (map createdUtc cs)"
    "set (map comment_id cs) = set (map comment_id (fetched_records sample_env sample_opts
                        [\<lparr>range_start = 0, range_end = Some 10\<rparr>] empty_world))"
    by blast+
  then have "distinct [''a'', ''c'', ''b'']" "sorted [3, 4, 5 :: int]"
    "set [''a'', ''c'', ''b''] = set [''a'', ''b'', ''b'', ''c'']"
    unfolding ids fr by this+
  then show ?thesis using f fr unfolding cs_def by (intro conjI)
qed

text \<open>
  C7 at a 429 response that carries no \<open>retry-after\<close> header: \<open>headers.get\<close> returns
  \<open>null\<close>, \<open>Number(null)\<close> is 0 and 0 is finite, so the wait is 0 ms and not
  \<open>retryBackoffMs * (attempt + 1)\<close>, which is 5000 ms here. (The second wait, 2000 ms, is
  the one that the header of the second response asks for.)
\<close>

theorem fetchLive_absent_retry_after_waits_zero:
  "rate_limit_wait sample_env sample_opts
       \<lparr>http_status = 429, retry_after = None, response_text = []\<rparr> 0 = 0
   \<and> of_int (opt_retryBackoffMs sample_opts * (0 + 1)) = (5000 :: real)
   \<and> sleeps (snd (fetchLive sample_env sample_opts ''url'' ''checksum'' empty_world)) = [0, 2000]"
  by code_simp

text \<open>
  The other parts of C7 hold. A request that is answered 429 twice and then 200 returns
  the page of the third answer; a budget of attempts that are all answered 429 ends in
  the error of \<open>fetchLive\<close>, which \<open>fetchRange\<close> and \<open>fetchAll\<close> pass on.
\<close>

lemma fetchLive_third_attempt_succeeds:
  "fst (fetchLive sample_env sample_opts ''url'' ''checksum'' empty_world) = sample_parse ''A''
   \<and> fetches (snd (fetchLive sample_env sample_opts ''url'' ''checksum'' empty_world)) = 3"
  by code_simp

subsection \<open>The ordered pipeline of analyze\<close>

lemma map_of_Map_set: "map_of (Map_set k v m) = (map_of m)(k \<mapsto> v)"
  by (induction m) (auto simp: fun_eq_iff)

lemma map_of_remove_key: "map_of (filter (\<lambda>e. fst e \<noteq> k) m) = (map_of m)(k := None)"
  by (induction m) (auto simp: fun_eq_iff)

lemma pipeline_inv_initial: "pipeline_inv p val None initial_state"
  by (simp add: pipeline_inv_def inv_limiter_def inv_owners_def inv_buffer_def inv_output_def
        initial_state_def front_def)

lemma drain_exit:
  assumes "map_of (pending st) (nextEmitIndex st) = None"
  shows "drain p owner st = st\<lparr>finished := insert owner (finished st)\<rparr>"
  using assms by (subst drain.simps) simp

lemma drain_callback:
  assumes "map_of (pending st) (nextEmitIndex st) = Some ready" "hasCallback p"
  shows "drain p owner st =
     st\<lparr>pending := filter (\<lambda>e. fst e \<noteq> nextEmitIndex st) (pending st),
        collected := (if shouldCollect p then collected st @ [ready] else collected st),
        emitted := emitted st @ [ready], suspended := suspended st @ [owner]\<rparr>"
  using assms by (subst drain.simps) (simp add: Let_def)

lemma drain_advance:
  assumes "map_of (pending st) (nextEmitIndex st) = Some ready" "\<not> hasCallback p"
  shows "drain p owner st =
     drain p owner
       (st\<lparr>pending := filter (\<lambda>e. fst e \<noteq> nextEmitIndex st) (pending st),
           collected := (if shouldCollect p then collected st @ [ready] else collected st),
           nextEmitIndex := nextEmitIndex st + 1\<rparr>)"
  using assms by (subst drain.simps) (simp add: Let_def)

lemma exit_inv:
  assumes inv: "pipeline_inv p val (Some owner) st"
    and none: "map_of (pending st) (nextEmitIndex st) = None"
  shows "pipeline_inv p val None (st\<lparr>finished := insert owner (finished st)\<rparr>)"
proof -
  from inv have l: "inv_limiter p st" and o: "inv_owners p (Some owner) st"
    and b: "inv_buffer p val (Some owner) st" and u: "inv_output p val st"
    by (simp_all add: pipeline_inv_def)
  have l': "inv_limiter p (st\<lparr>finished := insert owner (finished st)\<rparr>)"
    using l by (simp add: inv_limiter_def)
  have o': "inv_owners p None (st\<lparr>finished := insert owner (finished st)\<rparr>)"
    using o unfolding inv_owners_def by auto
  have keys: "nextEmitIndex st < k" if "map_of (pending st) k = Some c" for k c
  proof -
    have "nextEmitIndex st \<le> k" using b that unfolding inv_buffer_def by blast
    moreover have "k \<noteq> nextEmitIndex st" using that none by auto
    ultimately show ?thesis by simp
  qed
  have b': "inv_buffer p val None (st\<lparr>finished := insert owner (finished st)\<rparr>)"
    using b keys unfolding inv_buffer_def by (auto simp: front_def)
  have u': "inv_output p val (st\<lparr>finished := insert owner (finished st)\<rparr>)"
    using u by (simp add: inv_output_def front_def)
  show ?thesis using l' o' b' u' by (simp add: pipeline_inv_def)
qed

lemma ready_facts:
  assumes inv: "pipeline_inv p val (Some owner) st"
    and some: "map_of (pending st) (nextEmitIndex st) = Some ready"
  shows "ready = val (nextEmitIndex st)" "nextEmitIndex st \<in> settled st" "suspended st = []"
    "nextEmitIndex st < total p" "front st = nextEmitIndex st"
proof -
  from inv have l: "inv_limiter p st" and b: "inv_buffer p val (Some owner) st"
    by (simp_all add: pipeline_inv_def)
  show r: "ready = val (nextEmitIndex st)" and s: "nextEmitIndex st \<in> settled st"
    using b some unfolding inv_buffer_def by blast+
  show n: "suspended st = []"
  proof (rule ccontr)
    assume "suspended st \<noteq> []"
    then have "nextEmitIndex st < nextEmitIndex st" using b some unfolding inv_buffer_def by blast
    then show False by simp
  qed
  show "nextEmitIndex st < total p" using s l unfolding inv_limiter_def by auto
  show "front st = nextEmitIndex st" using n by (simp add: front_def)
qed

lemma callback_inv:
  assumes inv: "pipeline_inv p val (Some owner) st"
    and some: "map_of (pending st) (nextEmitIndex st) = Some ready"
    and cb: "hasCallback p"
  shows "pipeline_inv p val None
     (st\<lparr>pending := filter (\<lambda>e. fst e \<noteq> nextEmitIndex st) (pending st),
        collected := (if shouldCollect p then collected st @ [ready] else collected st),
        emitted := emitted st @ [ready], suspended := suspended st @ [owner]\<rparr>)"
    (is "pipeline_inv p val None ?st'")
proof -
  note r = ready_facts [OF inv some]
  from inv have l: "inv_limiter p st" and o: "inv_owners p (Some owner) st"
    and b: "inv_buffer p val (Some owner) st" and u: "inv_output p val st"
    by (simp_all add: pipeline_inv_def)
  have f': "front ?st' = Suc (nextEmitIndex st)" using r(3) by (simp add: front_def)
  have l': "inv_limiter p ?st'" using l by (simp add: inv_limiter_def)
  have o': "inv_owners p None ?st'"
    using o r(3) cb unfolding inv_owners_def by auto
  have b1: "front ?st' \<le> total p" using r(4) f' by simp
  have b2: "\<forall>i<front ?st'. i \<in> settled ?st'"
    using b r(2,5) f' unfolding inv_buffer_def by (auto simp: less_Suc_eq)
  have b3: "\<forall>k c. map_of (pending ?st') k = Some c \<longrightarrow>
            k \<in> settled ?st' \<and> c = val k \<and> nextEmitIndex ?st' \<le> k
            \<and> (None = None \<or> suspended ?st' \<noteq> [] \<longrightarrow> nextEmitIndex ?st' < k)"
  proof (intro allI impI)
    fix k c assume "map_of (pending ?st') k = Some c"
    then have kc: "map_of (pending st) k = Some c" "k \<noteq> nextEmitIndex st"
      by (auto simp: map_of_remove_key split: if_splits)
    then have "k \<in> settled st" "c = val k" "nextEmitIndex st \<le> k"
      using b unfolding inv_buffer_def by blast+
    then show "k \<in> settled ?st' \<and> c = val k \<and> nextEmitIndex ?st' \<le> k
            \<and> (None = None \<or> suspended ?st' \<noteq> [] \<longrightarrow> nextEmitIndex ?st' < k)"
      using kc(2) by simp
  qed
  have b4: "\<forall>k\<in>settled ?st'. k < front ?st' \<or> map_of (pending ?st') k = Some (val k)"
  proof
    fix k assume "k \<in> settled ?st'"
    then have "k < front st \<or> map_of (pending st) k = Some (val k)"
      using b unfolding inv_buffer_def by simp
    then show "k < front ?st' \<or> map_of (pending ?st') k = Some (val k)"
      using r(5) f' by (cases "k = nextEmitIndex st") (auto simp: map_of_remove_key)
  qed
  have b': "inv_buffer p val None ?st'"
    unfolding inv_buffer_def using b1 b2 b3 b4 by blast
  have u': "inv_output p val ?st'"
    using u r(1,3) cb unfolding inv_output_def by (simp add: front_def)
  show ?thesis using l' o' b' u' by (simp add: pipeline_inv_def)
qed

lemma advance_inv:
  assumes inv: "pipeline_inv p val (Some owner) st"
    and some: "map_of (pending st) (nextEmitIndex st) = Some ready"
    and cb: "\<not> hasCallback p"
  shows "pipeline_inv p val (Some owner)
     (st\<lparr>pending := filter (\<lambda>e. fst e \<noteq> nextEmitIndex st) (pending st),
           collected := (if shouldCollect p then collected st @ [ready] else collected st),
           nextEmitIndex := nextEmitIndex st + 1\<rparr>)"
    (is "pipeline_inv p val (Some owner) ?st'")
proof -
  note r = ready_facts [OF inv some]
  from inv have l: "inv_limiter p st" and o: "inv_owners p (Some owner) st"
    and b: "inv_buffer p val (Some owner) st" and u: "inv_output p val st"
    by (simp_all add: pipeline_inv_def)
  have f': "front ?st' = Suc (nextEmitIndex st)" using r(3) by (simp add: front_def)
  have l': "inv_limiter p ?st'" using l by (simp add: inv_limiter_def)
  have o': "inv_owners p (Some owner) ?st'"
    using o unfolding inv_owners_def by simp
  have b1: "front ?st' \<le> total p" using r(4) f' by simp
  have b2: "\<forall>i<front ?st'. i \<in> settled ?st'"
    using b r(2,5) f' unfolding inv_buffer_def by (auto simp: less_Suc_eq)
  have b3: "\<forall>k c. map_of (pending ?st') k = Some c \<longrightarrow>
            k \<in> settled ?st' \<and> c = val k \<and> nextEmitIndex ?st' \<le> k
            \<and> (Some owner = None \<or> suspended ?st' \<noteq> [] \<longrightarrow> nextEmitIndex ?st' < k)"
  proof (intro allI impI)
    fix k c assume "map_of (pending ?st') k = Some c"
    then have kc: "map_of (pending st) k = Some c" "k \<noteq> nextEmitIndex st"
      by (auto simp: map_of_remove_key split: if_splits)
    then have "k \<in> settled st" "c = val k" "nextEmitIndex st \<le> k"
      using b unfolding inv_buffer_def by blast+
    then show "k \<in> settled ?st' \<and> c = val k \<and> nextEmitIndex ?st' \<le> k
            \<and> (Some owner = None \<or> suspended ?st' \<noteq> [] \<longrightarrow> nextEmitIndex ?st' < k)"
      using kc(2) r(3) by simp
  qed
  have b4: "\<forall>k\<in>settled ?st'. k < front ?st' \<or> map_of (pending ?st') k = Some (val k)"
  proof
    fix k assume "k \<in> settled ?st'"
    then have "k < front st \<or> map_of (pending st) k = Some (val k)"
      using b unfolding inv_buffer_def by simp
    then show "k < front ?st' \<or> map_of (pending ?st') k = Some (val k)"
      using r(5) f' by (cases "k = nextEmitIndex st") (auto simp: map_of_remove_key)
  qed
  have b': "inv_buffer p val (Some owner) ?st'"
    unfolding inv_buffer_def using b1 b2 b3 b4 by blast
  have u': "inv_output p val ?st'"
    using u r(1,3) cb unfolding inv_output_def by (simp add: front_def)
  show ?thesis using l' o' b' u' by (simp add: pipeline_inv_def)
qed

lemma drain_inv:
  "pipeline_inv p val (Some owner) st \<Longrightarrow> pipeline_inv p val None (drain p owner st)"
proof (induction "length (pending st)" arbitrary: st rule: less_induct)
  case less
  show ?case
  proof (cases "map_of (pending st) (nextEmitIndex st)")
    case None
    then show ?thesis using exit_inv [OF less.prems None] by (simp add: drain_exit)
  next
    case (Some ready)
    show ?thesis
    proof (cases "hasCallback p")
      case True
      then show ?thesis using callback_inv [OF less.prems Some True] by (simp add: drain_callback [OF Some True])
    next
      case False
      have shorter: "length (filter (\<lambda>e. fst e \<noteq> k) xs) < length xs"
        if "(k, v) \<in> set xs" for k :: nat and v :: 'a and xs
        using that by (induction xs) (auto simp: less_Suc_eq_le)
      have "(nextEmitIndex st, ready) \<in> set (pending st)" using Some by (rule map_of_SomeD)
      then have "length (filter (\<lambda>e. fst e \<noteq> nextEmitIndex st) (pending st)) < length (pending st)"
        by (rule shorter)
      then show ?thesis
        using less.hyps [OF _ advance_inv [OF less.prems Some False]]
        by (simp add: drain_advance [OF Some False])
    qed
  qed
qed

lemma suspended_single:
  assumes "inv_owners p r st" "t \<in> set (suspended st)"
  shows "suspended st = [t]"
proof -
  have "length (suspended st) \<le> 1" using assms(1) unfolding inv_owners_def by blast
  then show ?thesis using assms(2) by (cases "suspended st") auto
qed

lemma admit_inv:
  assumes inv: "pipeline_inv p val None st" and en: "started st < total p"
  shows "pipeline_inv p val None (st\<lparr>started := started st + 1\<rparr>)"
proof -
  from inv have l: "inv_limiter p st" and o: "inv_owners p None st"
    and b: "inv_buffer p val None st" and u: "inv_output p val st"
    by (simp_all add: pipeline_inv_def)
  have "inv_limiter p (st\<lparr>started := started st + 1\<rparr>)"
    using l en unfolding inv_limiter_def by auto
  moreover have "inv_owners p None (st\<lparr>started := started st + 1\<rparr>)"
    using o unfolding inv_owners_def by simp
  moreover have "inv_buffer p val None (st\<lparr>started := started st + 1\<rparr>)"
    using b unfolding inv_buffer_def by (simp add: front_def)
  moreover have "inv_output p val (st\<lparr>started := started st + 1\<rparr>)"
    using u unfolding inv_output_def by (simp add: front_def)
  ultimately show ?thesis by (simp add: pipeline_inv_def)
qed

lemma settle_inv:
  assumes inv: "pipeline_inv p val None st" and en: "i < started st" "i \<notin> settled st"
  shows "pipeline_inv p val (Some i)
           (st\<lparr>settled := insert i (settled st), pending := Map_set i (val i) (pending st)\<rparr>)"
    (is "pipeline_inv p val (Some i) ?st'")
proof -
  from inv have l: "inv_limiter p st" and o: "inv_owners p None st"
    and b: "inv_buffer p val None st" and u: "inv_output p val st"
    by (simp_all add: pipeline_inv_def)
  have it: "i < total p" using l en(1) unfolding inv_limiter_def by simp
  have fr: "front st \<le> i"
  proof (rule ccontr)
    assume "\<not> front st \<le> i"
    then have "i \<in> settled st" using b unfolding inv_buffer_def by simp
    then show False using en(2) by simp
  qed
  have nf: "i \<notin> finished st" using o en(2) it unfolding inv_owners_def by auto
  have ns: "i \<notin> set (suspended st)" using o en(2) it unfolding inv_owners_def by auto
  have "inv_limiter p ?st'" using l en unfolding inv_limiter_def by simp
  moreover have "inv_owners p (Some i) ?st'"
    using o nf ns it unfolding inv_owners_def by auto
  moreover have "inv_buffer p val (Some i) ?st'"
  proof -
    have b1: "front ?st' \<le> total p" using b unfolding inv_buffer_def by (simp add: front_def)
    have b2: "\<forall>j<front ?st'. j \<in> settled ?st'"
      using b unfolding inv_buffer_def by (simp add: front_def)
    have b3: "\<forall>k c. map_of (pending ?st') k = Some c \<longrightarrow>
            k \<in> settled ?st' \<and> c = val k \<and> nextEmitIndex ?st' \<le> k
            \<and> (Some i = None \<or> suspended ?st' \<noteq> [] \<longrightarrow> nextEmitIndex ?st' < k)"
    proof (intro allI impI)
      fix k c assume kc: "map_of (pending ?st') k = Some c"
      show "k \<in> settled ?st' \<and> c = val k \<and> nextEmitIndex ?st' \<le> k
            \<and> (Some i = None \<or> suspended ?st' \<noteq> [] \<longrightarrow> nextEmitIndex ?st' < k)"
      proof (cases "k = i")
        case True
        then have "c = val i" using kc by (simp add: map_of_Map_set)
        moreover have "nextEmitIndex st \<le> i" using fr by (simp add: front_def)
        moreover have "suspended st \<noteq> [] \<Longrightarrow> nextEmitIndex st < i"
          using fr by (cases "suspended st") (simp_all add: front_def)
        ultimately show ?thesis using True by simp
      next
        case False
        then have "map_of (pending st) k = Some c" using kc by (simp add: map_of_Map_set)
        then have "k \<in> settled st" "c = val k" "nextEmitIndex st < k"
          using b unfolding inv_buffer_def by blast+
        then show ?thesis by simp
      qed
    qed
    have b4: "\<forall>k\<in>settled ?st'. k < front ?st' \<or> map_of (pending ?st') k = Some (val k)"
    proof
      fix k assume k: "k \<in> settled ?st'"
      show "k < front ?st' \<or> map_of (pending ?st') k = Some (val k)"
      proof (cases "k = i")
        case True
        then show ?thesis by (simp add: map_of_Map_set)
      next
        case False
        then have "k < front st \<or> map_of (pending st) k = Some (val k)"
          using b k unfolding inv_buffer_def by simp
        then show ?thesis using False by (simp add: map_of_Map_set front_def)
      qed
    qed
    show ?thesis unfolding inv_buffer_def using b1 b2 b3 b4 by blast
  qed
  moreover have "inv_output p val ?st'"
    using u unfolding inv_output_def by (simp add: front_def)
  ultimately show ?thesis by (simp add: pipeline_inv_def)
qed

lemma resume_inv:
  assumes inv: "pipeline_inv p val None st" and en: "t \<in> set (suspended st)"
  shows "pipeline_inv p val (Some t)
           (st\<lparr>suspended := remove1 t (suspended st), nextEmitIndex := nextEmitIndex st + 1\<rparr>)"
    (is "pipeline_inv p val (Some t) ?st'")
proof -
  from inv have l: "inv_limiter p st" and o: "inv_owners p None st"
    and b: "inv_buffer p val None st" and u: "inv_output p val st"
    by (simp_all add: pipeline_inv_def)
  note s = suspended_single [OF o en]
  have f: "front ?st' = front st" using s by (simp add: front_def)
  have "inv_limiter p ?st'" using l unfolding inv_limiter_def by simp
  moreover have "inv_owners p (Some t) ?st'"
    using o s unfolding inv_owners_def by auto
  moreover have "inv_buffer p val (Some t) ?st'"
  proof -
    have b1: "front ?st' \<le> total p" using b f unfolding inv_buffer_def by simp
    have b2: "\<forall>j<front ?st'. j \<in> settled ?st'"
      using b f unfolding inv_buffer_def by simp
    have b3: "\<forall>k c. map_of (pending ?st') k = Some c \<longrightarrow>
            k \<in> settled ?st' \<and> c = val k \<and> nextEmitIndex ?st' \<le> k
            \<and> (Some t = None \<or> suspended ?st' \<noteq> [] \<longrightarrow> nextEmitIndex ?st' < k)"
    proof (intro allI impI)
      fix k c assume "map_of (pending ?st') k = Some c"
      then have "map_of (pending st) k = Some c" by simp
      then have "k \<in> settled st" "c = val k" "nextEmitIndex st < k"
        using b unfolding inv_buffer_def by blast+
      then show "k \<in> settled ?st' \<and> c = val k \<and> nextEmitIndex ?st' \<le> k
            \<and> (Some t = None \<or> suspended ?st' \<noteq> [] \<longrightarrow> nextEmitIndex ?st' < k)"
        using s by simp
    qed
    have b4: "\<forall>k\<in>settled ?st'. k < front ?st' \<or> map_of (pending ?st') k = Some (val k)"
      using b f unfolding inv_buffer_def by simp
    show ?thesis unfolding inv_buffer_def using b1 b2 b3 b4 by blast
  qed
  moreover have "inv_output p val ?st'"
    using u f unfolding inv_output_def by simp
  ultimately show ?thesis by (simp add: pipeline_inv_def)
qed

lemma join_inv:
  assumes inv: "pipeline_inv p val None st"
    and en: "\<forall>i<total p. i \<in> finished st" "total p \<notin> finished st" "total p \<notin> set (suspended st)"
  shows "pipeline_inv p val (Some (total p)) st"
proof -
  from inv have l: "inv_limiter p st" and o: "inv_owners p None st"
    and b: "inv_buffer p val None st" and u: "inv_output p val st"
    by (simp_all add: pipeline_inv_def)
  have "inv_owners p (Some (total p)) st"
    using o en unfolding inv_owners_def by auto
  moreover have "inv_buffer p val (Some (total p)) st"
    using b unfolding inv_buffer_def by blast
  ultimately show ?thesis using l u by (simp add: pipeline_inv_def)
qed

lemma step_inv:
  assumes ok: "\<forall>i<total p. outcome p i = Inr (val i)"
    and inv: "pipeline_inv p val None st" and st: "step p ev st = Some st'"
  shows "pipeline_inv p val None st'"
proof (cases ev)
  case Admit
  then show ?thesis using st admit_inv [OF inv] by (auto split: if_splits)
next
  case (Settle i)
  then have en: "i < started st" "i \<notin> settled st" using st by (auto split: if_splits)
  from inv have "inv_limiter p st" by (simp add: pipeline_inv_def)
  then have "i < total p" using en(1) unfolding inv_limiter_def by simp
  then have "outcome p i = Inr (val i)" using ok by simp
  then have "st' = drain p i (st\<lparr>settled := insert i (settled st), pending := Map_set i (val i) (pending st)\<rparr>)"
    using st Settle en by simp
  then show ?thesis using drain_inv [OF settle_inv [OF inv en]] by simp
next
  case (Resume t)
  then have en: "t \<in> set (suspended st)" using st by (auto split: if_splits)
  then have "st' = resume_drain p t st" using st Resume by simp
  then show ?thesis using drain_inv [OF resume_inv [OF inv en]] by (simp add: resume_drain_def)
next
  case Join
  then have en: "\<forall>i<total p. i \<in> finished st" "total p \<notin> finished st" "total p \<notin> set (suspended st)"
    and st': "st' = drain p (total p) st"
    using st by (auto split: if_splits)
  show ?thesis using drain_inv [OF join_inv [OF inv en]] st' by simp
qed

lemma run_inv:
  assumes ok: "\<forall>i<total p. outcome p i = Inr (val i)"
  shows "pipeline_inv p val None st \<Longrightarrow> run p evs st = Some st' \<Longrightarrow> pipeline_inv p val None st'"
proof (induction evs arbitrary: st)
  case Nil
  then show ?case by simp
next
  case (Cons ev evs)
  then obtain st1 where s: "step p ev st = Some st1" and r: "run p evs st1 = Some st'"
    by (auto split: option.splits)
  from Cons.IH [OF step_inv [OF ok Cons.prems(1) s] r] show ?case .
qed

lemma finished_front:
  assumes inv: "pipeline_inv p val None st" and fin: "total p \<in> finished st"
  shows "front st = total p"
proof -
  from inv have l: "inv_limiter p st" and o: "inv_owners p None st"
    and b: "inv_buffer p val None st"
    by (simp_all add: pipeline_inv_def)
  have allfin: "\<forall>i<total p. i \<in> finished st" using o fin unfolding inv_owners_def by blast
  have nosusp: "suspended st = []"
  proof (cases "suspended st")
    case Nil
    then show ?thesis .
  next
    case (Cons t ts)
    then have "t \<notin> finished st" "t \<le> total p" using o unfolding inv_owners_def by auto
    then show ?thesis using allfin fin by (cases "t = total p") auto
  qed
  have le: "front st \<le> total p" using b unfolding inv_buffer_def by blast
  have "\<not> nextEmitIndex st < total p"
  proof
    assume lt: "nextEmitIndex st < total p"
    then have "nextEmitIndex st \<in> finished st" using allfin by simp
    then have s: "nextEmitIndex st \<in> settled st"
      using o lt unfolding inv_owners_def by auto
    then have "nextEmitIndex st < front st \<or> map_of (pending st) (nextEmitIndex st) = Some (val (nextEmitIndex st))"
      using b unfolding inv_buffer_def by blast
    then show False
    proof
      assume "nextEmitIndex st < front st"
      then show False using nosusp by (simp add: front_def)
    next
      assume "map_of (pending st) (nextEmitIndex st) = Some (val (nextEmitIndex st))"
      then have "nextEmitIndex st < nextEmitIndex st" using b unfolding inv_buffer_def by blast
      then show False by simp
    qed
  qed
  then show ?thesis using le nosusp by (simp add: front_def)
qed

lemma pipeline_progress:
  assumes inv: "pipeline_inv p val None st" and nf: "total p \<notin> finished st" and k: "1 \<le> limit p"
  shows "\<exists>ev. step p ev st \<noteq> None"
proof (cases "suspended st")
  case (Cons t ts)
  then have "step p (Resume t) st \<noteq> None" by simp
  then show ?thesis by blast
next
  case Nil
  from inv have l: "inv_limiter p st" and o: "inv_owners p None st" and u: "inv_output p val st"
    by (simp_all add: pipeline_inv_def)
  show ?thesis
  proof (cases "\<exists>i<started st. i \<notin> settled st")
    case True
    then obtain i where "i < started st" "i \<notin> settled st" by blast
    then have "step p (Settle i) st \<noteq> None" by (simp split: sum.splits)
    then show ?thesis by blast
  next
    case False
    then have s: "settled st = {..<started st}" using l unfolding inv_limiter_def by auto
    have sf: "settled st \<subseteq> finished st" using o Nil unfolding inv_owners_def by auto
    have tn: "total p \<notin> settled st" using l unfolding inv_limiter_def by auto
    have "finished st - {total p} = settled st"
      using o sf tn unfolding inv_owners_def by auto
    then have act: "active p st = 0" by (simp add: active_def s)
    show ?thesis
    proof (cases "started st < total p")
      case True
      then have "step p Admit st \<noteq> None" using act k by simp
      then show ?thesis by blast
    next
      case False
      then have "started st = total p" using l unfolding inv_limiter_def by simp
      then have "\<forall>i<total p. i \<in> finished st" using s sf by auto
      moreover have "rejection st = None" using u unfolding inv_output_def by simp
      ultimately have "step p Join st \<noteq> None" using nf Nil by simp
      then show ?thesis by blast
    qed
  qed
qed

text \<open>
  C1. When every task settles with a classification, \<open>val i\<close> for the input of index \<open>i\<close>,
  then in every state that a run of the pipeline reaches, under any limit and in any
  order of completion, the calls of \<open>onClassification\<close> so far and the list collected so
  far are \<open>val 0, ..., val (m - 1)\<close> for some \<open>m\<close>: results are handed on in the order of the
  inputs, none skipped and none twice, each after all those before it. When \<open>analyze\<close>
  returns they are all of \<open>val 0, ..., val (total - 1)\<close>. As long as it has not returned
  and the limit is at least 1, some event is enabled: the pipeline cannot get stuck.
\<close>

theorem analyze_emits_in_input_order:
  assumes "\<forall>i<total p. outcome p i = Inr (val i)"
    and "run p schedule initial_state = Some st"
  shows "(\<exists>m\<le>total p. emitted st = (if hasCallback p then map val [0..<m] else [])
            \<and> collected st = (if shouldCollect p then map val [0..<m] else []))
     \<and> (pipeline_result p st \<noteq> None \<longrightarrow>
           pipeline_result p st = Some (Inr (if shouldCollect p then map val [0..<total p] else []))
           \<and> emitted st = (if hasCallback p then map val [0..<total p] else []))
     \<and> (pipeline_result p st = None \<and> 1 \<le> limit p \<longrightarrow> (\<exists>ev. step p ev st \<noteq> None))"
proof -
  have inv: "pipeline_inv p val None st"
    by (rule run_inv [OF assms(1) pipeline_inv_initial assms(2)])
  then have b: "inv_buffer p val None st" and u: "inv_output p val st"
    by (simp_all add: pipeline_inv_def)
  have rej: "rejection st = None" using u unfolding inv_output_def by simp
  have 1: "\<exists>m\<le>total p. emitted st = (if hasCallback p then map val [0..<m] else [])
            \<and> collected st = (if shouldCollect p then map val [0..<m] else [])"
    using b u unfolding inv_buffer_def inv_output_def by blast
  have 2: "pipeline_result p st = Some (Inr (if shouldCollect p then map val [0..<total p] else []))
           \<and> emitted st = (if hasCallback p then map val [0..<total p] else [])"
    if "pipeline_result p st \<noteq> None"
  proof -
    from that rej have fin: "total p \<in> finished st"
      by (auto simp: pipeline_result_def split: if_splits)
    note f = finished_front [OF inv fin]
    show ?thesis using u f fin rej unfolding inv_output_def pipeline_result_def by simp
  qed
  have 3: "\<exists>ev. step p ev st \<noteq> None" if "pipeline_result p st = None" "1 \<le> limit p"
  proof -
    from that(1) rej have "total p \<notin> finished st"
      by (auto simp: pipeline_result_def split: if_splits)
    then show ?thesis using pipeline_progress [OF inv _ that(2)] by blast
  qed
  show ?thesis using 1 2 3 by blast
qed

theorem analyze_emits_in_input_order_witness:
  "\<exists>st. run sample_pipeline sample_schedule initial_state = Some st
      \<and> emitted st = map sample_classification
                       [sample_reddit_comment ''y'' 3, sample_reddit_comment ''z'' 2,
                        sample_reddit_comment ''x'' 1]
      \<and> pipeline_result sample_pipeline st
          = Some (Inr (map sample_classification
                         [sample_reddit_comment ''y'' 3, sample_reddit_comment ''z'' 2,
                          sample_reddit_comment ''x'' 1]))"
proof -
  define val where "val = (\<lambda>i. sample_classification
      ([sample_reddit_comment ''y'' 3, sample_reddit_comment ''z'' 2, sample_reddit_comment ''x'' 1] ! i))"
  have "map_option (\<lambda>st. pipeline_result sample_pipeline st = None)
          (run sample_pipeline sample_schedule initial_state) = Some False"
    by code_simp
  then obtain st where st: "run sample_pipeline sample_schedule initial_state = Some st"
    and res: "pipeline_result sample_pipeline st \<noteq> None"
    by (cases "run sample_pipeline sample_schedule initial_state") auto
  have sorted: "sort_key (\<lambda>c. - createdUtc c) sample_comments
      = [sample_reddit_comment ''y'' 3, sample_reddit_comment ''z'' 2, sample_reddit_comment ''x'' 1]"
    by (simp add: sample_comments_def sample_reddit_comment_def)
  have t: "total sample_pipeline = 3" "hasCallback sample_pipeline" "shouldCollect sample_pipeline"
    "\<forall>i<total sample_pipeline. outcome sample_pipeline i = Inr (val i)"
    by (simp_all add: sample_pipeline_def analyze_pipeline_def sorted val_def)
  have m: "map val [0..<3] = map sample_classification
                       [sample_reddit_comment ''y'' 3, sample_reddit_comment ''z'' 2,
                        sample_reddit_comment ''x'' 1]"
    by (simp add: val_def upt_rec)
  from analyze_emits_in_input_order [OF t(4) st] res t(1,2,3) m st show ?thesis
    by auto
qed

lemma drain_rejection: "rejection (drain p owner st) = rejection st"
proof (induction "length (pending st)" arbitrary: st rule: less_induct)
  case less
  show ?case
  proof (cases "map_of (pending st) (nextEmitIndex st)")
    case None
    then show ?thesis by (simp add: drain_exit)
  next
    case (Some ready)
    show ?thesis
    proof (cases "hasCallback p")
      case True
      then show ?thesis by (simp add: drain_callback [OF Some True])
    next
      case False
      have shorter: "length (filter (\<lambda>e. fst e \<noteq> k) xs) < length xs"
        if "(k, v) \<in> set xs" for k :: nat and v :: 'a and xs
        using that by (induction xs) (auto simp: less_Suc_eq_le)
      have "(nextEmitIndex st, ready) \<in> set (pending st)" using Some by (rule map_of_SomeD)
      then have "length (filter (\<lambda>e. fst e \<noteq> nextEmitIndex st) (pending st)) < length (pending st)"
        by (rule shorter)
      then show ?thesis
        using less.hyps [of "st\<lparr>pending := filter (\<lambda>e. fst e \<noteq> nextEmitIndex st) (pending st),
           collected := (if shouldCollect p then collected st @ [ready] else collected st),
           nextEmitIndex := nextEmitIndex st + 1\<rparr>"]
        by (simp add: drain_advance [OF Some False])
    qed
  qed
qed

lemma step_rejection:
  assumes "step p ev st = Some st'"
  shows "rejection st' = (case rejection st of Some e \<Rightarrow> Some e | None \<Rightarrow> first_failure p [ev])"
proof (cases ev)
  case Admit
  then have "rejection st' = rejection st" using assms by (auto split: if_splits)
  then show ?thesis using Admit by (simp split: option.splits)
next
  case (Settle i)
  then have en: "i < started st \<and> i \<notin> settled st" using assms by (simp split: if_splits)
  show ?thesis
  proof (cases "outcome p i")
    case (Inl e)
    then have "st' = st\<lparr>settled := insert i (settled st), finished := insert i (finished st),
                      rejection := (case rejection st of None \<Rightarrow> Some e | Some e0 \<Rightarrow> Some e0)\<rparr>"
      using assms Settle en by simp
    then show ?thesis using Settle Inl by (simp split: option.splits)
  next
    case (Inr c)
    then have "st' = drain p i (st\<lparr>settled := insert i (settled st),
                                  pending := Map_set i c (pending st)\<rparr>)"
      using assms Settle en by simp
    then have "rejection st' = rejection st" by (simp add: drain_rejection)
    then show ?thesis using Settle Inr by (simp split: option.splits)
  qed
next
  case (Resume t)
  then have "st' = resume_drain p t st" using assms by (simp split: if_splits)
  then have "rejection st' = rejection st" by (simp add: resume_drain_def drain_rejection)
  then show ?thesis using Resume by (simp split: option.splits)
next
  case Join
  then have "st' = drain p (total p) st" using assms by (simp split: if_splits)
  then have "rejection st' = rejection st" by (simp add: drain_rejection)
  then show ?thesis using Join by (simp split: option.splits)
qed

lemma first_failure_Cons:
  "(case (case r of Some e \<Rightarrow> Some e | None \<Rightarrow> first_failure p [ev]) of
      Some e \<Rightarrow> Some e | None \<Rightarrow> first_failure p evs)
   = (case r of Some e \<Rightarrow> Some e | None \<Rightarrow> first_failure p (ev # evs))"
proof (cases r)
  case (Some e)
  then show ?thesis by simp
next
  case None
  show ?thesis
  proof (cases ev)
    case (Settle i)
    then show ?thesis using None by (cases "outcome p i") simp_all
  qed (simp_all add: None)
qed

lemma run_rejection:
  "run p evs st = Some st' \<Longrightarrow>
     rejection st' = (case rejection st of Some e \<Rightarrow> Some e | None \<Rightarrow> first_failure p evs)"
proof (induction evs arbitrary: st)
  case Nil
  then show ?case by (cases "rejection st") simp_all
next
  case (Cons ev evs)
  then obtain st1 where s: "step p ev st = Some st1" and r: "run p evs st1 = Some st'"
    by (cases "step p ev st") simp_all
  show ?case
    unfolding Cons.IH [OF r] step_rejection [OF s] by (rule first_failure_Cons)
qed


lemma first_failure_skip:
  assumes "\<forall>j. ev \<noteq> Settle j"
  shows "first_failure p (ev # evs) = first_failure p evs"
  using assms by (cases ev) auto

lemma first_failure_some:
  "Settle i \<in> set evs \<Longrightarrow> outcome p i = Inl e \<Longrightarrow> \<exists>e'. first_failure p evs = Some e'"
proof (induction evs)
  case Nil
  then show ?case by simp
next
  case (Cons ev evs)
  show ?case
  proof (cases "\<exists>j. ev = Settle j")
    case True
    then obtain j where ev: "ev = Settle j" by blast
    show ?thesis
    proof (cases "outcome p j")
      case (Inl e2)
      then show ?thesis using ev by simp
    next
      case (Inr c)
      then have "j \<noteq> i" using Cons.prems(2) by auto
      then have "Settle i \<in> set evs" using Cons.prems(1) ev by simp
      from Cons.IH [OF this Cons.prems(2)] show ?thesis using ev Inr by simp
    qed
  next
    case False
    then have ns: "\<forall>j. ev \<noteq> Settle j" by blast
    then have "Settle i \<in> set evs" using Cons.prems(1) by auto
    from Cons.IH [OF this Cons.prems(2)] show ?thesis
      by (simp only: first_failure_skip [OF ns])
  qed
qed

lemma first_failure_only:
  assumes only: "\<forall>j e2. outcome p j = Inl e2 \<longrightarrow> j = i" and fails: "outcome p i = Inl e"
  shows "Settle i \<in> set evs \<Longrightarrow> first_failure p evs = Some e"
proof (induction evs)
  case Nil
  then show ?case by simp
next
  case (Cons ev evs)
  show ?case
  proof (cases "\<exists>j. ev = Settle j")
    case True
    then obtain j where ev: "ev = Settle j" by blast
    show ?thesis
    proof (cases "outcome p j")
      case (Inl e2)
      then have "j = i" using only by blast
      then show ?thesis using ev fails by simp
    next
      case (Inr c)
      then have "j \<noteq> i" using fails by auto
      then have "Settle i \<in> set evs" using Cons.prems ev by simp
      from Cons.IH [OF this] show ?thesis using ev Inr by simp
    qed
  next
    case False
    then have ns: "\<forall>j. ev \<noteq> Settle j" by blast
    then have "Settle i \<in> set evs" using Cons.prems by auto
    from Cons.IH [OF this] show ?thesis
      by (simp only: first_failure_skip [OF ns])
  qed
qed

lemma classifyComment_no_payload:
  assumes "cache_read store ns
             (checksumFrom (sha256_hex pf) (localeCompare pf) (classification_cachePayload opts c cats)) = None"
  shows "classifyComment pf opts ns store c cats (Inr None)
     = (Inl no_parsed_output, store,
        [Cache_read ns (checksumFrom (sha256_hex pf) (localeCompare pf) (classification_cachePayload opts c cats)),
         Compute_call])"
  using assms by (simp add: classifyComment_def getOrCompute_def Let_def)

lemma pipeline_result_rejected:
  assumes "run p schedule initial_state = Some st" "first_failure p schedule = Some e"
  shows "pipeline_result p st = Some (Inl e)"
proof -
  have "rejection st = Some e"
    using run_rejection [OF assms(1)] assms(2) by (simp add: initial_state_def)
  then show ?thesis by (simp add: pipeline_result_def)
qed

text \<open>
  C6. When the inference service returns no parsed payload for a comment that is not in
  the cache, \<open>classifyComment\<close> throws and writes nothing to the cache. When the task of
  some input settles with an error in a run of the pipeline, \<open>Promise.all\<close> and with it
  \<open>analyze\<close> reject, with the error of the first task that failed, which is that error when
  no other input fails: no list of classifications is returned.
\<close>

theorem analyze_rejects_on_enrichment_failure:
  "(cache_read store ns
       (checksumFrom (sha256_hex pf) (localeCompare pf) (classification_cachePayload opts c cats)) = None
     \<longrightarrow> fst (classifyComment pf opts ns store c cats (Inr None)) = Inl no_parsed_output
         \<and> fst (snd (classifyComment pf opts ns store c cats (Inr None))) = store)
   \<and> (run p schedule initial_state = Some st \<and> Settle i \<in> set schedule \<and> outcome p i = Inl e
     \<longrightarrow> (\<exists>e'. first_failure p schedule = Some e' \<and> pipeline_result p st = Some (Inl e'))
         \<and> ((\<forall>j e2. outcome p j = Inl e2 \<longrightarrow> j = i) \<longrightarrow> pipeline_result p st = Some (Inl e)))
   \<and> (comments \<noteq> [] \<and> 1 \<le> concurrency aopts
        \<and> run (analyze_pipeline aopts comments collect onClassification classify) schedule initial_state = Some st'
        \<and> Settle i \<in> set schedule
        \<and> outcome (analyze_pipeline aopts comments collect onClassification classify) i = Inl e
     \<longrightarrow> (\<exists>e'. analyze aopts comments collect onClassification (Inr cats) classify schedule = Some (Inl e')))"
proof (intro conjI impI)
  assume "cache_read store ns
       (checksumFrom (sha256_hex pf) (localeCompare pf) (classification_cachePayload opts c cats)) = None"
  from classifyComment_no_payload [OF this]
  show "fst (classifyComment pf opts ns store c cats (Inr None)) = Inl no_parsed_output"
    and "fst (snd (classifyComment pf opts ns store c cats (Inr None))) = store"
    by simp_all
next
  assume a: "run p schedule initial_state = Some st \<and> Settle i \<in> set schedule \<and> outcome p i = Inl e"
  then obtain e' where e': "first_failure p schedule = Some e'"
    using first_failure_some [of i schedule p e] by blast
  then show "\<exists>e'. first_failure p schedule = Some e' \<and> pipeline_result p st = Some (Inl e')"
    using pipeline_result_rejected [of p schedule st e'] a by blast
next
  assume a: "run p schedule initial_state = Some st \<and> Settle i \<in> set schedule \<and> outcome p i = Inl e"
    and only: "\<forall>j e2. outcome p j = Inl e2 \<longrightarrow> j = i"
  have "first_failure p schedule = Some e"
    using first_failure_only [OF only, of e schedule] a by blast
  then show "pipeline_result p st = Some (Inl e)"
    using pipeline_result_rejected [of p schedule st e] a by blast
next
  let ?p = "analyze_pipeline aopts comments collect onClassification classify"
  assume a: "comments \<noteq> [] \<and> 1 \<le> concurrency aopts
        \<and> run ?p schedule initial_state = Some st'
        \<and> Settle i \<in> set schedule \<and> outcome ?p i = Inl e"
  then obtain e' where e': "first_failure ?p schedule = Some e'"
    using first_failure_some [of i schedule ?p e] by blast
  have "pipeline_result ?p st' = Some (Inl e')"
    using pipeline_result_rejected [of ?p schedule st' e'] a e' by blast
  then have "analyze aopts comments collect onClassification (Inr cats) classify schedule = Some (Inl e')"
    using a by (simp add: analyze_def Let_def)
  then show "\<exists>e'. analyze aopts comments collect onClassification (Inr cats) classify schedule = Some (Inl e')"
    by blast
qed

theorem analyze_rejects_on_enrichment_failure_witness:
  "fst (classifyComment sample_json_platform sample_analyzer_options ''openai-responses''
          (\<lambda>key. None) (sample_reddit_comment ''z'' 2) [] (Inr None)) = Inl no_parsed_output
   \<and> (\<exists>st. run (analyze_pipeline sample_analyzer_options sample_comments (Some True) True failing_classify)
               failing_schedule initial_state = Some st
            \<and> pipeline_result
                 (analyze_pipeline sample_analyzer_options sample_comments (Some True) True failing_classify)
                 st = Some (Inl no_parsed_output))
   \<and> (\<exists>e'. analyze sample_analyzer_options sample_comments (Some True) True (Inr [])
               failing_classify failing_schedule = Some (Inl e'))"
proof -
  let ?p = "analyze_pipeline sample_analyzer_options sample_comments (Some True) True failing_classify"
  have "run ?p failing_schedule initial_state \<noteq> None"
    by code_simp
  then obtain st where st: "run ?p failing_schedule initial_state = Some st" by blast
  have out: "outcome ?p 1 = Inl no_parsed_output"
    by code_simp
  have ff: "first_failure ?p failing_schedule = Some no_parsed_output"
    by code_simp
  have miss: "cache_read (\<lambda>key. None) ''openai-responses''
       (checksumFrom (sha256_hex sample_json_platform) (localeCompare sample_json_platform)
          (classification_cachePayload sample_analyzer_options (sample_reddit_comment ''z'' 2) [])) = None"
    by (simp add: cache_read_def)
  have sch: "Settle 1 \<in> set failing_schedule" by (simp add: failing_schedule_def)
  have ne: "sample_comments \<noteq> []" "1 \<le> concurrency sample_analyzer_options"
    by (simp_all add: sample_comments_def sample_analyzer_options_def)
  note t = analyze_rejects_on_enrichment_failure
    [where store = "\<lambda>key. None" and ns = "''openai-responses''" and pf = sample_json_platform
       and opts = sample_analyzer_options and c = "sample_reddit_comment ''z'' 2" and cats = "[]"
       and p = ?p and schedule = failing_schedule and st = st and i = 1 and e = no_parsed_output
       and comments = sample_comments and aopts = sample_analyzer_options and collect = "Some True"
       and onClassification = True and classify = failing_classify and st' = st]
  from t miss have 1: "fst (classifyComment sample_json_platform sample_analyzer_options ''openai-responses''
          (\<lambda>key. None) (sample_reddit_comment ''z'' 2) [] (Inr None)) = Inl no_parsed_output"
    by blast
  from t st sch out have "\<exists>e'. first_failure ?p failing_schedule = Some e'
      \<and> pipeline_result ?p st = Some (Inl e')"
    by blast
  then have 2: "pipeline_result ?p st = Some (Inl no_parsed_output)" using ff by auto
  from t st sch out ne have 3: "\<exists>e'. analyze sample_analyzer_options sample_comments (Some True) True (Inr [])
               failing_classify failing_schedule = Some (Inl e')"
    by blast
  show ?thesis using 1 2 3 st by blast
qed

subsection \<open>csvEscape and writeRow\<close>





lemma replace_newlines_chars: "set (replace_newlines v) \<subseteq> insert (CHR '' '') (set v)"
  by (induction v rule: replace_newlines.induct) auto













end
